theory Spec2Isabelle
  imports
    Complex_Main
    "HOL-Library.Char_ord"
    "HOL-Library.List_Lexorder"
    "HOL-Library.Product_Lexorder"
    "HOL-Library.Multiset"
begin

section \<open>Python values, dictionaries and exceptions\<close>

text \<open>
  The measurements of \<^verbatim>\<open>nettool.py\<close> are Python dictionaries with string keys, built by
  \<^verbatim>\<open>ping_host\<close> and read back from \<^verbatim>\<open>results.json\<close>. A dictionary is an association list
  in insertion order; the values are the scalars a measurement holds. A float is
  represented by the real number it denotes: the program only compares floats (it never
  computes with them), and comparison of finite floats agrees with comparison of their
  values. Strings are sequences of code points below 256; Python compares strings by
  code point, which is the lexicographic order on \<^typ>\<open>string\<close> used here.
\<close>

datatype pyval = PNone | PBool bool | PInt int | PFloat real | PStr string

datatype py_error = KeyError | TypeError | OSError

type_synonym row = "(string \<times> pyval) list"

text \<open>Truth value of an object, as \<^verbatim>\<open>not x\<close> and \<^verbatim>\<open>x or y\<close> test it.\<close>

fun truthy :: "pyval \<Rightarrow> bool" where
  "truthy PNone = False"
| "truthy (PBool b) = b"
| "truthy (PInt i) = (i \<noteq> 0)"
| "truthy (PFloat x) = (x \<noteq> 0)"
| "truthy (PStr s) = (s \<noteq> [])"

text \<open>Numbers compare by value across \<^verbatim>\<open>bool\<close>, \<^verbatim>\<open>int\<close> and \<^verbatim>\<open>float\<close>.\<close>

fun num_of :: "pyval \<Rightarrow> real option" where
  "num_of (PBool b) = Some (if b then 1 else 0)"
| "num_of (PInt i) = Some (real_of_int i)"
| "num_of (PFloat x) = Some x"
| "num_of _ = None"

text \<open>\<^verbatim>\<open>a == b\<close>, which is also the equality of dictionary keys.\<close>

fun py_eq :: "pyval \<Rightarrow> pyval \<Rightarrow> bool" where
  "py_eq PNone PNone = True"
| "py_eq (PStr s) (PStr t) = (s = t)"
| "py_eq a b = (case (num_of a, num_of b) of (Some x, Some y) \<Rightarrow> x = y | _ \<Rightarrow> False)"

text \<open>\<^verbatim>\<open>a < b\<close>: defined on two numbers and on two strings, a \<^verbatim>\<open>TypeError\<close> otherwise.\<close>

fun py_lt :: "pyval \<Rightarrow> pyval \<Rightarrow> py_error + bool" where
  "py_lt (PStr s) (PStr t) = Inr (s < t)"
| "py_lt a b = (case (num_of a, num_of b) of (Some x, Some y) \<Rightarrow> Inr (x < y) | _ \<Rightarrow> Inl TypeError)"

definition py_gt :: "pyval \<Rightarrow> pyval \<Rightarrow> py_error + bool" where
  "py_gt a b = py_lt b a"

text \<open>
  A dictionary keyed by Python values (\<^verbatim>\<open>latest\<close> in \<^verbatim>\<open>cmd_report\<close> and \<^verbatim>\<open>cmd_export\<close>):
  lookup by \<^verbatim>\<open>==\<close>; assignment to an existing key replaces the value in place, a new key
  goes to the end, so that \<^verbatim>\<open>values()\<close> lists in order of first insertion.
\<close>

fun dict_get :: "(pyval \<times> 'v) list \<Rightarrow> pyval \<Rightarrow> 'v option" where
  "dict_get [] k = None"
| "dict_get ((k', v) # d) k = (if py_eq k' k then Some v else dict_get d k)"

fun dict_set :: "(pyval \<times> 'v) list \<Rightarrow> pyval \<Rightarrow> 'v \<Rightarrow> (pyval \<times> 'v) list" where
  "dict_set [] k v = [(k, v)]"
| "dict_set ((k', v') # d) k v = (if py_eq k' k then (k', v) # d else (k', v') # dict_set d k v)"

section \<open>The latency pattern\<close>

text \<open>
  Regular expressions as far as \<^verbatim>\<open>_LATENCY_RE\<close> needs them, with the matching order of a
  backtracking engine: \<open>rmatch r s\<close> lists every way \<open>r\<close> matches a prefix of \<open>s\<close>, in the
  order the engine tries them (greedy repetitions longest first, an optional part taken
  before it is skipped), each with the text consumed, the rest of the input and the text
  of group 1 when the group took part.
\<close>

datatype re =
    Chr "char \<Rightarrow> bool"
  | Seq re re
  | Opt re
  | Many "char \<Rightarrow> bool"
  | Many1 "char \<Rightarrow> bool"
  | Group re

fun rmatch :: "re \<Rightarrow> string \<Rightarrow> (string \<times> string \<times> string option) list" where
  "rmatch (Chr P) s = (case s of [] \<Rightarrow> [] | c # cs \<Rightarrow> if P c then [([c], cs, None)] else [])"
| "rmatch (Seq a b) s =
     concat (map (\<lambda>(u, s1, g1).
        map (\<lambda>(v, s2, g2). (u @ v, s2, (case g2 of None \<Rightarrow> g1 | Some w \<Rightarrow> Some w))) (rmatch b s1))
      (rmatch a s))"
| "rmatch (Opt a) s = rmatch a s @ [([], s, None)]"
| "rmatch (Many P) s =
     map (\<lambda>k. (take k s, drop k s, None)) (rev [0 ..< Suc (length (takeWhile P s))])"
| "rmatch (Many1 P) s =
     map (\<lambda>k. (take k s, drop k s, None)) (rev [1 ..< Suc (length (takeWhile P s))])"
| "rmatch (Group a) s = map (\<lambda>(u, s1, g). (u, s1, Some u)) (rmatch a s)"

text \<open>
  \<^verbatim>\<open>pattern.search(s)\<close>: the first match at the leftmost position that has one; the result
  is \<^verbatim>\<open>m.group(1)\<close> of the match object (\<open>None\<close> inside when the group did not take part).
\<close>

fun re_search :: "re \<Rightarrow> string \<Rightarrow> string option option" where
  "re_search r [] = (case rmatch r [] of [] \<Rightarrow> None | (u, s1, g) # _ \<Rightarrow> Some g)"
| "re_search r (c # cs) =
     (case rmatch r (c # cs) of [] \<Rightarrow> re_search r cs | (u, s1, g) # _ \<Rightarrow> Some g)"

text \<open>\<^verbatim>\<open>\s\<close> and \<^verbatim>\<open>\d\<close> of a \<^verbatim>\<open>str\<close> pattern, on code points below 256.\<close>

definition is_space :: "char \<Rightarrow> bool" where
  "is_space c \<longleftrightarrow> c \<in> {CHR 0x09, CHR 0x0A, CHR 0x0B, CHR 0x0C, CHR 0x0D,
                      CHR 0x1C, CHR 0x1D, CHR 0x1E, CHR 0x1F, CHR 0x20, CHR 0x85, CHR 0xA0}"

definition is_digit :: "char \<Rightarrow> bool" where
  "is_digit c \<longleftrightarrow> CHR ''0'' \<le> c \<and> c \<le> CHR ''9''"

text \<open>A letter under \<^verbatim>\<open>re.IGNORECASE\<close>: the lower-case letter or its capital.\<close>

definition letter :: "char \<Rightarrow> char \<Rightarrow> re" where
  "letter l u = Chr (\<lambda>c. c = l \<or> c = u)"

text \<open>\<^verbatim>\<open>re.compile(r"time[=<]?\s*(\d+(?:\.\d+)?)\s*ms", re.IGNORECASE)\<close>\<close>

definition LATENCY_RE :: re where
  "LATENCY_RE =
     Seq (letter CHR ''t'' CHR ''T'') (Seq (letter CHR ''i'' CHR ''I'')
    (Seq (letter CHR ''m'' CHR ''M'') (Seq (letter CHR ''e'' CHR ''E'')
    (Seq (Opt (Chr (\<lambda>c. c = CHR ''='' \<or> c = CHR ''<'')))
    (Seq (Many is_space)
    (Seq (Group (Seq (Many1 is_digit) (Opt (Seq (Chr (\<lambda>c. c = CHR ''.'')) (Many1 is_digit)))))
    (Seq (Many is_space)
    (Seq (letter CHR ''m'' CHR ''M'') (letter CHR ''s'' CHR ''S'')))))))))"

section \<open>Probing\<close>

text \<open>
  What \<^verbatim>\<open>subprocess.run(cmd, capture_output=True, text=True, timeout=...)\<close> can do: return
  a completed process (exit status, standard output, standard error), raise
  \<^verbatim>\<open>TimeoutExpired\<close>, or raise an \<^verbatim>\<open>OSError\<close> when the command cannot be started.
\<close>

datatype run_outcome = Completed int string string | TimeoutExpired | LaunchFailed

text \<open>
  The body of \<^verbatim>\<open>ping_once\<close> after the process has run. \<open>pyfloat\<close> is Python's \<^verbatim>\<open>float\<close> on
  the captured text (\<open>None\<close> for a \<^verbatim>\<open>ValueError\<close>, which leaves the latency unset). Only
  \<^verbatim>\<open>TimeoutExpired\<close> is caught.
\<close>

fun ping_result :: "(string \<Rightarrow> real option) \<Rightarrow> run_outcome \<Rightarrow> py_error + (bool \<times> real option \<times> int)" where
  "ping_result pyfloat (Completed returncode stdout stderr) =
     (let out = stdout @ [CHR 0x0A] @ stderr;
          reachable = (returncode = 0)
      in case re_search LATENCY_RE out of
           None \<Rightarrow> Inr (reachable, None, returncode)
         | Some None \<Rightarrow> Inl TypeError
         | Some (Some g) \<Rightarrow> Inr (reachable, pyfloat g, returncode))"
| "ping_result pyfloat TimeoutExpired = Inr (False, None, 124)"
| "ping_result pyfloat LaunchFailed = Inl OSError"

text \<open>
  The outside world: \<open>proc k\<close> is what the \<open>k\<close>-th process run of the execution does and
  \<open>utcnow k\<close> the formatted clock reading once \<open>k\<close> runs have been made. The state threaded
  through the program is the log of the calls of \<^verbatim>\<open>ping_once\<close> made so far, each with
  its arguments. The command line and the timeout given to the process are functions
  of the platform and of these two arguments; they are not modelled further.
\<close>

record env =
  proc :: "nat \<Rightarrow> run_outcome"
  utcnow :: "nat \<Rightarrow> string"

type_synonym calls = "(string \<times> int) list"

definition ping_once ::
  "(string \<Rightarrow> real option) \<Rightarrow> env \<Rightarrow> string \<Rightarrow> int \<Rightarrow> calls
     \<Rightarrow> (py_error + (bool \<times> real option \<times> int)) \<times> calls" where
  "ping_once pyfloat e host timeout_ms tr =
     (ping_result pyfloat (proc e (length tr)), tr @ [(host, timeout_ms)])"

record acc =
  best :: "real option"
  successes :: int
  last_rc :: "int option"

text \<open>
  One pass through the body of the loop of \<^verbatim>\<open>ping_host\<close>, after \<^verbatim>\<open>ping_once\<close> has
  returned \<open>(ok, lat, rc)\<close>.
\<close>

fun record_attempt :: "acc \<Rightarrow> bool \<times> real option \<times> int \<Rightarrow> acc" where
  "record_attempt a (ok, lat, rc) =
     a\<lparr> last_rc := Some rc,
        successes := (if ok then successes a + 1 else successes a),
        best := (if ok then
                   (case lat of
                      None \<Rightarrow> best a
                    | Some l \<Rightarrow>
                        (case best a of
                           None \<Rightarrow> Some l
                         | Some b \<Rightarrow> if l < b then Some l else Some b))
                 else best a) \<rparr>"

text \<open>The \<^verbatim>\<open>for _ in range(max(1, retries))\<close> loop of \<^verbatim>\<open>ping_host\<close>, by the iterations left.\<close>

fun ping_loop ::
  "(string \<Rightarrow> real option) \<Rightarrow> env \<Rightarrow> string \<Rightarrow> int \<Rightarrow> nat \<Rightarrow> acc \<Rightarrow> calls
     \<Rightarrow> (py_error + acc) \<times> calls" where
  "ping_loop pyfloat e host timeout_ms 0 a tr = (Inr a, tr)"
| "ping_loop pyfloat e host timeout_ms (Suc n) a tr =
     (case ping_once pyfloat e host timeout_ms tr of
        (Inl err, tr') \<Rightarrow> (Inl err, tr')
      | (Inr r, tr') \<Rightarrow> ping_loop pyfloat e host timeout_ms n (record_attempt a r) tr')"

definition ping_host ::
  "(string \<Rightarrow> real option) \<Rightarrow> env \<Rightarrow> string \<Rightarrow> int \<Rightarrow> int \<Rightarrow> calls \<Rightarrow> (py_error + row) \<times> calls" where
  "ping_host pyfloat e host retries timeout_ms tr =
     (case ping_loop pyfloat e host timeout_ms (nat (max 1 retries))
             \<lparr> best = None, successes = 0, last_rc = None \<rparr> tr of
        (Inl err, tr') \<Rightarrow> (Inl err, tr')
      | (Inr a, tr') \<Rightarrow>
          (Inr [(''host'', PStr host),
                (''reachable'', PBool (successes a > 0)),
                (''latency_ms'', (case best a of None \<Rightarrow> PNone | Some b \<Rightarrow> PFloat b)),
                (''timestamp'', PStr (utcnow e (length tr'))),
                (''raw_exit'', (case last_rc a of None \<Rightarrow> PNone | Some rc \<Rightarrow> PInt rc)),
                (''attempts'', PInt (max 1 retries)),
                (''successes'', PInt (successes a))],
           tr'))"

text \<open>
  \<^verbatim>\<open>cmd_scan\<close>: probes the saved hosts in order and appends the batch to the stored
  results; the value is the list handed to \<^verbatim>\<open>save_results\<close> (\<open>None\<close> when there are no
  hosts and nothing is saved). An exception leaves the loop, so nothing is saved.
\<close>

fun scan_loop ::
  "(string \<Rightarrow> real option) \<Rightarrow> env \<Rightarrow> int \<Rightarrow> int \<Rightarrow> string list \<Rightarrow> row list \<Rightarrow> calls
     \<Rightarrow> (py_error + row list) \<times> calls" where
  "scan_loop pyfloat e retries timeout_ms [] batch tr = (Inr batch, tr)"
| "scan_loop pyfloat e retries timeout_ms (h # hs) batch tr =
     (case ping_host pyfloat e h retries timeout_ms tr of
        (Inl err, tr') \<Rightarrow> (Inl err, tr')
      | (Inr r, tr') \<Rightarrow> scan_loop pyfloat e retries timeout_ms hs (batch @ [r]) tr')"

definition cmd_scan ::
  "(string \<Rightarrow> real option) \<Rightarrow> env \<Rightarrow> int \<Rightarrow> int \<Rightarrow> string list \<Rightarrow> row list \<Rightarrow> calls
     \<Rightarrow> (py_error + row list option) \<times> calls" where
  "cmd_scan pyfloat e retries timeout_ms hosts results tr =
     (if hosts = [] then (Inr None, tr)
      else (case scan_loop pyfloat e retries timeout_ms hosts [] tr of
              (Inl err, tr') \<Rightarrow> (Inl err, tr')
            | (Inr batch, tr') \<Rightarrow> (Inr (Some (results @ batch)), tr')))"


section \<open>Reporting and export\<close>

text \<open>
  One pass through the loop ``keep latest per host'', which \<^verbatim>\<open>cmd_report\<close> and
  \<^verbatim>\<open>cmd_export\<close> (under \<^verbatim>\<open>--latest\<close>) both contain word for word:
  \<^verbatim>\<open>host = r["host"]\<close> raises \<^verbatim>\<open>KeyError\<close> on a missing key,
  \<^verbatim>\<open>ts = r.get("timestamp") or ""\<close>, and the stored record is replaced when the host is
  new or \<^verbatim>\<open>ts > latest[host].get("timestamp", "")\<close>.
\<close>

definition latest_step :: "(pyval \<times> row) list \<Rightarrow> row \<Rightarrow> py_error + (pyval \<times> row) list" where
  "latest_step latest r =
     (case map_of r ''host'' of
        None \<Rightarrow> Inl KeyError
      | Some host \<Rightarrow>
          (let ts = (case map_of r ''timestamp'' of
                       None \<Rightarrow> PStr []
                     | Some v \<Rightarrow> if truthy v then v else PStr [])
           in case dict_get latest host of
                None \<Rightarrow> Inr (dict_set latest host r)
              | Some old \<Rightarrow>
                  (case py_gt ts (case map_of old ''timestamp'' of None \<Rightarrow> PStr [] | Some v \<Rightarrow> v) of
                     Inl err \<Rightarrow> Inl err
                   | Inr b \<Rightarrow> Inr (if b then dict_set latest host r else latest))))"

fun latest_loop :: "(pyval \<times> row) list \<Rightarrow> row list \<Rightarrow> py_error + (pyval \<times> row) list" where
  "latest_loop latest [] = Inr latest"
| "latest_loop latest (r # rs) =
     (case latest_step latest r of
        Inl err \<Rightarrow> Inl err
      | Inr latest' \<Rightarrow> latest_loop latest' rs)"

text \<open>The loop from the empty dictionary, then \<^verbatim>\<open>list(latest.values())\<close>.\<close>

definition latest_per_host :: "row list \<Rightarrow> py_error + row list" where
  "latest_per_host results =
     (case latest_loop [] results of
        Inl err \<Rightarrow> Inl err
      | Inr latest \<Rightarrow> Inr (map snd latest))"

text \<open>
  The sort key of \<^verbatim>\<open>cmd_report\<close>:
  \<^verbatim>\<open>(not r["reachable"], r["latency_ms"] if r["latency_ms"] is not None else 1e9, r["host"])\<close>.
\<close>

definition report_key :: "row \<Rightarrow> py_error + (bool \<times> pyval \<times> pyval)" where
  "report_key r =
     (case map_of r ''reachable'' of
        None \<Rightarrow> Inl KeyError
      | Some reach \<Rightarrow>
          (case map_of r ''latency_ms'' of
             None \<Rightarrow> Inl KeyError
           | Some lat \<Rightarrow>
               (case map_of r ''host'' of
                  None \<Rightarrow> Inl KeyError
                | Some host \<Rightarrow>
                    Inr (\<not> truthy reach, (if lat \<noteq> PNone then lat else PFloat 1000000000), host))))"

text \<open>
  \<^verbatim>\<open><\<close> on two such tuples: the first position where the tuples differ under \<^verbatim>\<open>==\<close>
  decides, by \<^verbatim>\<open><\<close> on the two items there; equal tuples are not less.
\<close>

fun key_lt :: "bool \<times> pyval \<times> pyval \<Rightarrow> bool \<times> pyval \<times> pyval \<Rightarrow> py_error + bool" where
  "key_lt (a1, a2, a3) (b1, b2, b3) =
     (if a1 \<noteq> b1 then Inr (\<not> a1 \<and> b1)
      else if \<not> py_eq a2 b2 then py_lt a2 b2
      else if \<not> py_eq a3 b3 then py_lt a3 b3
      else Inr False)"

text \<open>
  \<^verbatim>\<open>list.sort(key=...)\<close>: the keys are computed first, one per item in order; the sort is
  stable and compares keys with \<^verbatim>\<open><\<close> only, and an exception raised by a key or a
  comparison leaves the sort. The sort is modelled as a stable insertion sort. Every
  stable sort returns the same list when the comparisons succeed and order the keys
  linearly; which pairs Python compares before an incomparable pair raises is not
  modelled.
\<close>

fun keyed :: "('a \<Rightarrow> py_error + 'k) \<Rightarrow> 'a list \<Rightarrow> py_error + ('k \<times> 'a) list" where
  "keyed key [] = Inr []"
| "keyed key (x # xs) =
     (case key x of
        Inl err \<Rightarrow> Inl err
      | Inr k \<Rightarrow> (case keyed key xs of Inl err \<Rightarrow> Inl err | Inr ks \<Rightarrow> Inr ((k, x) # ks)))"

fun insert_sorted ::
  "('k \<Rightarrow> 'k \<Rightarrow> py_error + bool) \<Rightarrow> 'k \<times> 'a \<Rightarrow> ('k \<times> 'a) list \<Rightarrow> py_error + ('k \<times> 'a) list" where
  "insert_sorted lt x [] = Inr [x]"
| "insert_sorted lt x (y # ys) =
     (case lt (fst y) (fst x) of
        Inl err \<Rightarrow> Inl err
      | Inr b \<Rightarrow>
          if b then (case insert_sorted lt x ys of Inl err \<Rightarrow> Inl err | Inr zs \<Rightarrow> Inr (y # zs))
          else Inr (x # y # ys))"

fun sort_keyed ::
  "('k \<Rightarrow> 'k \<Rightarrow> py_error + bool) \<Rightarrow> ('k \<times> 'a) list \<Rightarrow> py_error + ('k \<times> 'a) list" where
  "sort_keyed lt [] = Inr []"
| "sort_keyed lt (x # xs) =
     (case sort_keyed lt xs of
        Inl err \<Rightarrow> Inl err
      | Inr ys \<Rightarrow> insert_sorted lt x ys)"

definition py_sort ::
  "('a \<Rightarrow> py_error + 'k) \<Rightarrow> ('k \<Rightarrow> 'k \<Rightarrow> py_error + bool) \<Rightarrow> 'a list \<Rightarrow> py_error + 'a list" where
  "py_sort key lt xs =
     (case keyed key xs of
        Inl err \<Rightarrow> Inl err
      | Inr ks \<Rightarrow> (case sort_keyed lt ks of Inl err \<Rightarrow> Inl err | Inr ys \<Rightarrow> Inr (map snd ys)))"

text \<open>\<^verbatim>\<open>rows.sort(key=lambda r: ...)\<close> in \<^verbatim>\<open>cmd_report\<close>.\<close>

definition report_sort :: "row list \<Rightarrow> py_error + row list" where
  "report_sort rows = py_sort report_key key_lt rows"

text \<open>
  \<^verbatim>\<open>cmd_report\<close> up to its printing: the rows in the order they are printed, \<open>None\<close>
  when there are no results and only the hint is printed.
\<close>

definition cmd_report :: "row list \<Rightarrow> py_error + row list option" where
  "cmd_report results =
     (if results = [] then Inr None
      else (case latest_per_host results of
              Inl err \<Rightarrow> Inl err
            | Inr rows \<Rightarrow>
                (case report_sort rows of Inl err \<Rightarrow> Inl err | Inr sorted_rows \<Rightarrow> Inr (Some sorted_rows))))"

definition base_fields :: "string list" where
  "base_fields = [''host'', ''reachable'', ''latency_ms'', ''timestamp'', ''raw_exit'']"

text \<open>\<^verbatim>\<open>extra_fields = set(); for r in rows: extra_fields.update(r.keys())\<close>\<close>

definition extra_fields :: "row list \<Rightarrow> string set" where
  "extra_fields rows = fold (\<lambda>r fields. fields \<union> set (map fst r)) rows {}"

text \<open>\<^verbatim>\<open>base_fields + [k for k in sorted(extra_fields) if k not in base_fields]\<close>\<close>

definition fieldnames :: "row list \<Rightarrow> string list" where
  "fieldnames rows =
     base_fields @ filter (\<lambda>k. k \<notin> set base_fields) (sorted_list_of_set (extra_fields rows))"

text \<open>
  \<^verbatim>\<open>cmd_export\<close>: the header and the rows handed to the CSV writer, \<open>None\<close> when there are
  no results and no file is written.
\<close>

definition cmd_export :: "bool \<Rightarrow> row list \<Rightarrow> py_error + (string list \<times> row list) option" where
  "cmd_export latest_only results =
     (if results = [] then Inr None
      else (case (if latest_only then latest_per_host results else Inr results) of
              Inl err \<Rightarrow> Inl err
            | Inr rows \<Rightarrow> Inr (Some (fieldnames rows, rows))))"



section \<open>Notions used to state the properties\<close>

text \<open>
  The latencies that count for \<^verbatim>\<open>best\<close>: those of the attempts that succeeded and reported
  one, in order.
\<close>

fun success_latencies :: "(bool \<times> real option \<times> int) list \<Rightarrow> real list" where
  "success_latencies [] = []"
| "success_latencies ((ok, lat, rc) # xs) =
     (case lat of
        Some l \<Rightarrow> if ok then l # success_latencies xs else success_latencies xs
      | None \<Rightarrow> success_latencies xs)"

definition least_of :: "real list \<Rightarrow> real option" where
  "least_of ls = (if ls = [] then None else Some (Min (set ls)))"

definition opt_list :: "'a option \<Rightarrow> 'a list" where
  "opt_list x = (case x of None \<Rightarrow> [] | Some v \<Rightarrow> [v])"


text \<open>A pattern whose every match sets group 1.\<close>

definition groups :: "re \<Rightarrow> bool" where
  "groups r \<longleftrightarrow> (\<forall>s u s1 g. (u, s1, g) \<in> set (rmatch r s) \<longrightarrow> g \<noteq> None)"


text \<open>
  A measurement as the reduction reads it: \<^verbatim>\<open>host\<close> is a string, and \<^verbatim>\<open>timestamp\<close> is a
  string or is missing, in which case the loop takes the empty string for it.
\<close>

definition is_measurement :: "row \<Rightarrow> bool" where
  "is_measurement r =
     (case map_of r ''host'' of
        Some (PStr h) \<Rightarrow>
          (case map_of r ''timestamp'' of
             None \<Rightarrow> True
           | Some (PStr s) \<Rightarrow> True
           | Some _ \<Rightarrow> False)
      | _ \<Rightarrow> False)"

definition row_host :: "row \<Rightarrow> string" where
  "row_host r = (case map_of r ''host'' of Some (PStr h) \<Rightarrow> h | _ \<Rightarrow> [])"

definition row_ts :: "row \<Rightarrow> string" where
  "row_ts r = (case map_of r ''timestamp'' of Some (PStr s) \<Rightarrow> s | _ \<Rightarrow> [])"

text \<open>
  The record kept for one host after its records \<open>rs\<close> have gone by in order, \<open>cur\<close> being
  the one kept before: a record replaces the kept one when its timestamp is greater.
\<close>

fun pick :: "row option \<Rightarrow> row list \<Rightarrow> row option" where
  "pick cur [] = cur"
| "pick cur (r # rs) =
     pick (case cur of
             None \<Rightarrow> Some r
           | Some b \<Rightarrow> if row_ts b < row_ts r then Some r else Some b) rs"

text \<open>The invariant of the dictionary \<^verbatim>\<open>latest\<close>: each host once, filed under its own name.\<close>

definition latest_ok :: "(pyval \<times> row) list \<Rightarrow> bool" where
  "latest_ok d \<longleftrightarrow>
     distinct (map fst d) \<and> list_all (\<lambda>(k, v). k = PStr (row_host v) \<and> is_measurement v) d"

text \<open>
  A row as \<^verbatim>\<open>cmd_report\<close> sorts it: \<^verbatim>\<open>reachable\<close> is a boolean, \<^verbatim>\<open>latency_ms\<close> a float or
  \<^verbatim>\<open>None\<close>, \<^verbatim>\<open>host\<close> a string.
\<close>

definition reportable :: "row \<Rightarrow> bool" where
  "reportable r =
     (case map_of r ''reachable'' of
        Some (PBool b) \<Rightarrow>
          (case map_of r ''latency_ms'' of
             Some PNone \<Rightarrow> (case map_of r ''host'' of Some (PStr h) \<Rightarrow> True | _ \<Rightarrow> False)
           | Some (PFloat x) \<Rightarrow> (case map_of r ''host'' of Some (PStr h) \<Rightarrow> True | _ \<Rightarrow> False)
           | _ \<Rightarrow> False)
      | _ \<Rightarrow> False)"

definition row_reachable :: "row \<Rightarrow> bool" where
  "row_reachable r = (case map_of r ''reachable'' of Some (PBool b) \<Rightarrow> b | _ \<Rightarrow> False)"

definition row_latency :: "row \<Rightarrow> real option" where
  "row_latency r = (case map_of r ''latency_ms'' of Some (PFloat x) \<Rightarrow> Some x | _ \<Rightarrow> None)"

text \<open>The latency the report sorts by: a missing one counts as \<open>1e9\<close>.\<close>

definition sort_latency :: "row \<Rightarrow> real" where
  "sort_latency r = (case row_latency r of None \<Rightarrow> 1000000000 | Some x \<Rightarrow> x)"

text \<open>
  The order of the report in words: reachable before unreachable, then the smaller
  latency first, then the smaller host name first.
\<close>

definition report_before :: "row \<Rightarrow> row \<Rightarrow> bool" where
  "report_before r r' \<longleftrightarrow>
     (row_reachable r \<and> \<not> row_reachable r') \<or>
     (row_reachable r = row_reachable r' \<and>
        (sort_latency r < sort_latency r' \<or>
         (sort_latency r = sort_latency r' \<and> row_host r \<le> row_host r')))"

text \<open>The same order as a key in the lexicographic order of triples.\<close>

definition rank :: "row \<Rightarrow> bool \<times> real \<times> string" where
  "rank r = (\<not> row_reachable r, sort_latency r, row_host r)"

text \<open>The key that \<^verbatim>\<open>cmd_report\<close> computes for such a row.\<close>

definition pykey :: "row \<Rightarrow> bool \<times> pyval \<times> pyval" where
  "pykey r = (\<not> row_reachable r, PFloat (sort_latency r), PStr (row_host r))"

text \<open>The match a backtracking engine finds first for \<open>r\<close> at the start of \<open>s\<close>.\<close>

definition starts :: "re \<Rightarrow> string \<Rightarrow> string \<times> string \<times> string option \<Rightarrow> bool" where
  "starts r s x \<longleftrightarrow> (\<exists>rest. rmatch r s = x # rest)"

text \<open>
  A word written in any mix of cases: \<open>spelled lower upper s\<close> when each character of \<open>s\<close>
  is the letter of \<open>lower\<close> or of \<open>upper\<close> at its place.
\<close>

fun spelled :: "string \<Rightarrow> string \<Rightarrow> string \<Rightarrow> bool" where
  "spelled [] [] [] = True"
| "spelled (l # ls) (u # us) (c # cs) = ((c = l \<or> c = u) \<and> spelled ls us cs)"
| "spelled _ _ _ = False"

text \<open>A decimal numeral: digits, or digits, a point and digits.\<close>

definition decimal_numeral :: "string \<Rightarrow> bool" where
  "decimal_numeral s =
     (let ip = takeWhile is_digit s; r = dropWhile is_digit s
      in ip \<noteq> [] \<and> (r = [] \<or> (hd r = CHR ''.'' \<and> tl r \<noteq> [] \<and> list_all is_digit (tl r))))"

section \<open>Concrete inputs\<close>

text \<open>
  A conversion for the examples: the exact value of a decimal numeral \<^verbatim>\<open>digits\<close> or
  \<^verbatim>\<open>digits.digits\<close>. Python's \<^verbatim>\<open>float\<close> returns the nearest double, which is this value
  whenever a double represents it, as for every numeral used below.
\<close>

definition digit_value :: "char \<Rightarrow> nat" where
  "digit_value c = of_char c - 48"

definition digits_value :: "string \<Rightarrow> nat" where
  "digits_value ds = foldl (\<lambda>n c. 10 * n + digit_value c) 0 ds"

definition decimal_value :: "string \<Rightarrow> real option" where
  "decimal_value s =
     (let ip = takeWhile is_digit s; r = dropWhile is_digit s
      in if ip = [] then None
         else (case r of
                 [] \<Rightarrow> Some (real (digits_value ip))
               | c # fp \<Rightarrow>
                   if c = CHR ''.'' \<and> fp \<noteq> [] \<and> list_all is_digit fp
                   then Some (real (digits_value ip) + real (digits_value fp) / 10 ^ length fp)
                   else None))"

definition example_clock :: "nat \<Rightarrow> string" where
  "example_clock k = ''2024-05-01T10:00:00Z''"

text \<open>Three runs: a reply after 5.0 ms, a timeout, a reply after 2.0 ms.\<close>

definition mixed_env :: env where
  "mixed_env =
     \<lparr> proc = (\<lambda>k. if k = 0 then Completed 0 ''64 bytes from 10.0.0.1: icmp_seq=1 ttl=64 time=5.0 ms'' []
                    else if k = 1 then TimeoutExpired
                    else Completed 0 ''64 bytes from 10.0.0.1: icmp_seq=1 ttl=64 time=2.0 ms'' []),
       utcnow = example_clock \<rparr>"

text \<open>
  Four runs: a reply after 5.0 ms, a success whose output has no latency, a failure whose
  output has one, a reply after 2.0 ms.
\<close>

definition unparsed_env :: env where
  "unparsed_env =
     \<lparr> proc = (\<lambda>k. if k = 0 then Completed 0 ''reply time=5.0 ms'' []
                    else if k = 1 then Completed 0 ''1 packets transmitted, 1 received'' []
                    else if k = 2 then Completed 1 ''time=0.5 ms'' []
                    else Completed 0 ''reply time=2.0 ms'' []),
       utcnow = example_clock \<rparr>"


text \<open>Runs that time out, except the fourth, which cannot be started.\<close>

definition launch_env :: env where
  "launch_env =
     \<lparr> proc = (\<lambda>k. if k = 3 then LaunchFailed else TimeoutExpired),
       utcnow = example_clock \<rparr>"



text \<open>Stored measurements: the history of the specification's example, and a tie.\<close>

definition rowA10 :: row where
  "rowA10 = [(''host'', PStr ''A''), (''reachable'', PBool False), (''latency_ms'', PNone),
             (''timestamp'', PStr ''10''), (''raw_exit'', PInt 1)]"

definition rowB5 :: row where
  "rowB5 = [(''host'', PStr ''B''), (''reachable'', PBool True), (''latency_ms'', PFloat 5),
            (''timestamp'', PStr ''5''), (''raw_exit'', PInt 0)]"

definition rowA20 :: row where
  "rowA20 = [(''host'', PStr ''A''), (''reachable'', PBool True), (''latency_ms'', PFloat 7),
             (''timestamp'', PStr ''20''), (''raw_exit'', PInt 0)]"



text \<open>The rows of the specification's sorting example, and a row with a latency above \<open>1e9\<close>.\<close>

definition downA :: row where
  "downA = [(''host'', PStr ''A''), (''reachable'', PBool False), (''latency_ms'', PNone),
            (''timestamp'', PStr ''2024-05-01T10:00:00Z''), (''raw_exit'', PInt 124),
            (''attempts'', PInt 3), (''successes'', PInt 0)]"

definition upB :: row where
  "upB = [(''host'', PStr ''B''), (''reachable'', PBool True), (''latency_ms'', PFloat 5),
          (''timestamp'', PStr ''2024-05-01T10:00:00Z''), (''raw_exit'', PInt 0),
          (''attempts'', PInt 3), (''successes'', PInt 3)]"

definition upC :: row where
  "upC = [(''host'', PStr ''C''), (''reachable'', PBool True), (''latency_ms'', PNone),
          (''timestamp'', PStr ''2024-05-01T10:00:00Z''), (''raw_exit'', PInt 0),
          (''attempts'', PInt 3), (''successes'', PInt 1)]"

definition slowD :: row where
  "slowD = [(''host'', PStr ''D''), (''reachable'', PBool True), (''latency_ms'', PFloat 2000000000),
            (''timestamp'', PStr ''2024-05-01T10:00:00Z''), (''raw_exit'', PInt 0),
            (''attempts'', PInt 3), (''successes'', PInt 3)]"

section \<open>The retry loop\<close>

lemma ping_loop_returns:
  "\<forall>i<n. ping_result pyfloat (proc e (length tr + i)) = Inr (outs ! i) \<Longrightarrow> length outs = n \<Longrightarrow>
   ping_loop pyfloat e host timeout_ms n a tr =
     (Inr (foldl record_attempt a outs), tr @ replicate n (host, timeout_ms))"
proof (induction n arbitrary: a tr outs)
  case 0
  then show ?case by simp
next
  case (Suc n)
  then obtain r rs where outs: "outs = r # rs" by (cases outs) auto
  from Suc.prems(1) have first: "ping_result pyfloat (proc e (length tr)) = Inr r"
    using outs by (metis add.right_neutral nth_Cons_0 zero_less_Suc)
  have rest: "\<forall>i<n. ping_result pyfloat (proc e (length (tr @ [(host, timeout_ms)]) + i)) = Inr (rs ! i)"
  proof (intro allI impI)
    fix i assume "i < n"
    then have "ping_result pyfloat (proc e (length tr + Suc i)) = Inr (outs ! Suc i)"
      using Suc.prems(1) by (meson Suc_less_eq)
    then show "ping_result pyfloat (proc e (length (tr @ [(host, timeout_ms)]) + i)) = Inr (rs ! i)"
      by (simp add: outs)
  qed
  have len: "length rs = n" using Suc.prems(2) outs by simp
  show ?case
    using Suc.IH [OF rest len, of "record_attempt a r"] first
    by (simp add: ping_once_def outs replicate_app_Cons_same)
qed

lemma foldl_successes:
  "successes (foldl record_attempt a outs) = successes a + int (length (filter fst outs))"
  by (induction outs arbitrary: a) (auto split: prod.splits)

lemma foldl_last_rc:
  "outs \<noteq> [] \<Longrightarrow> last_rc (foldl record_attempt a outs) = Some (snd (snd (last outs)))"
  by (induction outs arbitrary: a) (auto split: prod.splits)

lemma least_of_append_single:
  "least_of (opt_list b @ l # ls) = least_of (opt_list (case b of None \<Rightarrow> Some l | Some v \<Rightarrow> if l < v then Some l else Some v) @ ls)"
proof (cases b)
  case None
  then show ?thesis by (simp add: opt_list_def)
next
  case (Some v)
  show ?thesis
  proof (cases "ls = []")
    case True
    then show ?thesis using Some by (auto simp: least_of_def opt_list_def min_def)
  next
    case False
    then have "Min (insert v (insert l (set ls))) = Min (insert (min l v) (set ls))"
      by (simp add: min.assoc min.commute)
    then show ?thesis using Some by (simp add: least_of_def opt_list_def min_def)
  qed
qed

lemma foldl_best:
  "best (foldl record_attempt a outs) = least_of (opt_list (best a) @ success_latencies outs)"
proof (induction outs arbitrary: a)
  case Nil
  then show ?case by (cases "best a") (simp_all add: least_of_def opt_list_def)
next
  case (Cons r rs)
  obtain ok lat rc where r: "r = (ok, lat, rc)" by (cases r)
  show ?case
    by (cases lat; cases ok) (simp_all add: Cons.IH r least_of_append_single)
qed

lemma groups_Group: "groups (Group a)"
  by (auto simp: groups_def)

lemma groups_Seq_left: "groups a \<Longrightarrow> groups (Seq a b)"
  by (fastforce simp: groups_def split: option.splits)

lemma groups_Seq_right: "groups b \<Longrightarrow> groups (Seq a b)"
  by (fastforce simp: groups_def split: option.splits)

lemma groups_LATENCY_RE: "groups LATENCY_RE"
  unfolding LATENCY_RE_def
  by (intro groups_Seq_right groups_Seq_left groups_Group)

lemma re_search_groups: "groups r \<Longrightarrow> re_search r s \<noteq> Some None"
proof (induction s)
  case Nil
  then show ?case by (auto simp: groups_def split: list.splits) (metis list.set_intros(1))
next
  case (Cons c cs)
  then show ?case by (auto simp: groups_def split: list.splits) (metis list.set_intros(1))
qed

lemma ping_result_error: "ping_result pyfloat p = Inl err \<longleftrightarrow> p = LaunchFailed \<and> err = OSError"
proof (cases p)
  case (Completed rc out errs)
  have "re_search LATENCY_RE (out @ [CHR 0x0A] @ errs) \<noteq> Some None"
    by (rule re_search_groups [OF groups_LATENCY_RE])
  then show ?thesis using Completed by (auto simp: Let_def split: option.splits)
qed auto

lemma ping_loop_bounds:
  "ping_loop pyfloat e host timeout_ms n a tr = (Inr a', tr') \<Longrightarrow>
     successes a \<le> successes a' \<and> successes a' \<le> successes a + int n"
proof (induction n arbitrary: a tr)
  case 0
  then show ?case by simp
next
  case (Suc n)
  then show ?case
    by (fastforce simp: ping_once_def split: sum.splits prod.splits if_splits)
qed

lemma ping_host_returns:
  assumes "length outs = nat (max 1 retries)"
      and "\<forall>i<length outs. ping_result pyfloat (proc e (length tr + i)) = Inr (outs ! i)"
  shows "ping_host pyfloat e host retries timeout_ms tr =
     (Inr [(''host'', PStr host),
           (''reachable'', PBool (0 < length (filter fst outs))),
           (''latency_ms'', (case least_of (success_latencies outs) of None \<Rightarrow> PNone | Some b \<Rightarrow> PFloat b)),
           (''timestamp'', PStr (utcnow e (length tr + length outs))),
           (''raw_exit'', PInt (snd (snd (last outs)))),
           (''attempts'', PInt (max 1 retries)),
           (''successes'', PInt (int (length (filter fst outs))))],
      tr @ replicate (length outs) (host, timeout_ms))"
proof -
  have ne: "outs \<noteq> []" using assms(1) by auto
  have loop: "ping_loop pyfloat e host timeout_ms (nat (max 1 retries))
       \<lparr> best = None, successes = 0, last_rc = None \<rparr> tr =
     (Inr (foldl record_attempt \<lparr> best = None, successes = 0, last_rc = None \<rparr> outs),
      tr @ replicate (nat (max 1 retries)) (host, timeout_ms))"
    using assms by (intro ping_loop_returns) auto
  show ?thesis
    unfolding ping_host_def loop
    by (simp add: foldl_successes foldl_last_rc [OF ne] foldl_best opt_list_def assms(1))
qed

lemma outcomes_exist:
  "\<forall>i<n. \<exists>r. f i = Inr r \<Longrightarrow> \<exists>outs. length outs = n \<and> (\<forall>i<length outs. f i = Inr (outs ! i))"
proof -
  assume a: "\<forall>i<n. \<exists>r. f i = Inr r"
  let ?outs = "map (\<lambda>i. projr (f i)) [0..<n]"
  have "length ?outs = n" by simp
  moreover have "\<forall>i<length ?outs. f i = Inr (?outs ! i)"
    using a by auto
  ultimately show ?thesis by blast
qed

lemma ping_loop_fails:
  "i < n \<Longrightarrow> proc e (length tr + i) = LaunchFailed \<Longrightarrow>
   \<forall>j<i. proc e (length tr + j) \<noteq> LaunchFailed \<Longrightarrow>
   ping_loop pyfloat e host timeout_ms n a tr =
     (Inl OSError, tr @ replicate (Suc i) (host, timeout_ms))"
proof (induction n arbitrary: i a tr)
  case 0
  then show ?case by simp
next
  case (Suc n)
  show ?case
  proof (cases i)
    case 0
    then have "ping_result pyfloat (proc e (length tr)) = Inl OSError"
      using Suc.prems(2) by simp
    then show ?thesis using 0 by (simp add: ping_once_def)
  next
    case (Suc k)
    then have "proc e (length tr) \<noteq> LaunchFailed"
      using Suc.prems(3) by (metis add.right_neutral zero_less_Suc)
    then obtain r where r: "ping_result pyfloat (proc e (length tr)) = Inr r"
      by (metis ping_result_error sum.exhaust)
    have k: "k < n" using Suc Suc.prems(1) by simp
    have fail: "proc e (length (tr @ [(host, timeout_ms)]) + k) = LaunchFailed"
      using Suc.prems(2) Suc by simp
    have before: "\<forall>j<k. proc e (length (tr @ [(host, timeout_ms)]) + j) \<noteq> LaunchFailed"
    proof (intro allI impI)
      fix j assume "j < k"
      then have "proc e (length tr + Suc j) \<noteq> LaunchFailed"
        using Suc.prems(3) Suc by (meson Suc_less_eq)
      then show "proc e (length (tr @ [(host, timeout_ms)]) + j) \<noteq> LaunchFailed" by simp
    qed
    show ?thesis
      using Suc.IH [OF k fail before, of "record_attempt a r"] r Suc
      by (simp add: ping_once_def replicate_app_Cons_same)
  qed
qed

lemma ping_host_fails:
  assumes "i < nat (max 1 retries)" "proc e (length tr + i) = LaunchFailed"
    "\<forall>j<i. proc e (length tr + j) \<noteq> LaunchFailed"
  shows "ping_host pyfloat e host retries timeout_ms tr =
     (Inl OSError, tr @ replicate (Suc i) (host, timeout_ms))"
  unfolding ping_host_def ping_loop_fails [OF assms] by simp

lemma ping_host_runs:
  assumes "\<forall>i<nat (max 1 retries). proc e (length tr + i) \<noteq> LaunchFailed"
  shows "\<exists>m. ping_host pyfloat e host retries timeout_ms tr =
              (Inr m, tr @ replicate (nat (max 1 retries)) (host, timeout_ms))"
proof -
  have "\<forall>i<nat (max 1 retries). \<exists>r. ping_result pyfloat (proc e (length tr + i)) = Inr r"
    using assms by (metis ping_result_error sum.exhaust)
  from outcomes_exist [OF this] obtain outs where
    len: "length outs = nat (max 1 retries)" and
    outs: "\<forall>i<length outs. ping_result pyfloat (proc e (length tr + i)) = Inr (outs ! i)"
    by blast
  show ?thesis
    unfolding ping_host_returns [OF len outs] by (simp add: len)
qed

lemma scan_loop_fails:
  "i < length hosts * nat (max 1 retries) \<Longrightarrow> proc e (length tr + i) = LaunchFailed \<Longrightarrow>
   \<forall>j<i. proc e (length tr + j) \<noteq> LaunchFailed \<Longrightarrow>
   scan_loop pyfloat e retries timeout_ms hosts batch tr =
     (Inl OSError,
      tr @ take (Suc i) (concat (map (\<lambda>h. replicate (nat (max 1 retries)) (h, timeout_ms)) hosts)))"
proof (induction hosts arbitrary: i batch tr)
  case Nil
  then show ?case by simp
next
  case (Cons h hs)
  let ?n = "nat (max 1 retries)"
  show ?case
  proof (cases "i < ?n")
    case True
    show ?thesis
      using ping_host_fails [OF True Cons.prems(2,3), of pyfloat h timeout_ms] True
      by simp
  next
    case False
    then have "\<forall>j<?n. proc e (length tr + j) \<noteq> LaunchFailed"
      using Cons.prems(3) by auto
    from ping_host_runs [OF this] obtain m where
      m: "ping_host pyfloat e h retries timeout_ms tr = (Inr m, tr @ replicate ?n (h, timeout_ms))"
      by blast
    let ?tr = "tr @ replicate ?n (h, timeout_ms)"
    have "i < ?n + length hs * ?n" using Cons.prems(1) by simp
    then have i': "i - ?n < length hs * ?n" using False by linarith
    have fail: "proc e (length ?tr + (i - ?n)) = LaunchFailed"
      using Cons.prems(2) False by simp
    have before: "\<forall>j<i - ?n. proc e (length ?tr + j) \<noteq> LaunchFailed"
    proof (intro allI impI)
      fix j assume "j < i - ?n"
      then have "?n + j < i" by simp
      then have "proc e (length tr + (?n + j)) \<noteq> LaunchFailed" using Cons.prems(3) by blast
      then show "proc e (length ?tr + j) \<noteq> LaunchFailed" by (simp add: add.assoc)
    qed
    have "Suc i - ?n = Suc (i - ?n)" using False by simp
    then show ?thesis
      using Cons.IH [OF i' fail before, of "batch @ [m]"] m False
      by simp
  qed
qed




section \<open>Properties of the retry loop\<close>

text \<open>
  Claim C4. Let \<open>outs\<close> be what the \<open>max(1, retries)\<close> calls of \<^verbatim>\<open>ping_once\<close> return, in
  order. Then \<^verbatim>\<open>ping_host\<close> returns a measurement whose \<^verbatim>\<open>latency_ms\<close> is the least latency
  among the attempts that succeeded and reported one, and \<^verbatim>\<open>None\<close> when there is no such
  attempt, and whose \<^verbatim>\<open>successes\<close> is the number of attempts that succeeded: a success
  without a latency counts as a success and leaves \<^verbatim>\<open>latency_ms\<close> alone, and so does
  the latency of a failed attempt.
\<close>

theorem ping_host_best_latency:
  assumes "length outs = nat (max 1 retries)"
      and "\<forall>i<length outs. ping_result pyfloat (proc e (length tr + i)) = Inr (outs ! i)"
  shows "\<exists>m tr'. ping_host pyfloat e host retries timeout_ms tr = (Inr m, tr') \<and>
           map_of m ''latency_ms'' =
             Some (if success_latencies outs = [] then PNone
                   else PFloat (Min (set (success_latencies outs)))) \<and>
           map_of m ''successes'' = Some (PInt (int (length (filter fst outs))))"
  unfolding ping_host_returns [OF assms]
  by (simp add: least_of_def)

text \<open>
  The example of the claim: attempts that give 5.0, nothing (a timeout) and 2.0 yield
  \<^verbatim>\<open>latency_ms = 2.0\<close> and \<^verbatim>\<open>successes = 2\<close>.
\<close>

theorem ping_host_best_latency_witness:
  "\<exists>m tr'. ping_host decimal_value mixed_env ''10.0.0.1'' 3 1000 [] = (Inr m, tr') \<and>
      map_of m ''latency_ms'' = Some (PFloat 2) \<and> map_of m ''successes'' = Some (PInt 2)"
proof -
  let ?outs = "[(True, Some 5, 0), (False, None, 124), (True, Some 2, 0)]
                 :: (bool \<times> real option \<times> int) list"
  have len: "length ?outs = nat (max 1 3)" by simp
  have r: "ping_result decimal_value (proc mixed_env 0) = Inr (True, Some 5, 0)"
      "ping_result decimal_value (proc mixed_env 1) = Inr (False, None, 124)"
      "ping_result decimal_value (proc mixed_env 2) = Inr (True, Some 2, 0)"
    by code_simp+
  have h: "\<forall>i<length ?outs.
      ping_result decimal_value (proc mixed_env (length ([]::calls) + i)) = Inr (?outs ! i)"
    using r by (simp add: less_Suc_eq eval_nat_numeral)
  show ?thesis
    using ping_host_best_latency [OF len h, of "''10.0.0.1''" 1000] by simp
qed

text \<open>
  When the attempt without a latency is itself a success (exit status 0, no latency in
  the output) it is counted: of four attempts giving 5.0, a success without latency, a
  failure that printed 0.5, and 2.0, three are successes and the latency is 2.0.
\<close>

lemma ping_host_unparsed_success:
  "ping_host decimal_value unparsed_env ''10.0.0.1'' 4 1000 [] =
      (Inr [(''host'', PStr ''10.0.0.1''), (''reachable'', PBool True), (''latency_ms'', PFloat 2),
            (''timestamp'', PStr ''2024-05-01T10:00:00Z''), (''raw_exit'', PInt 0),
            (''attempts'', PInt 4), (''successes'', PInt 3)],
       [(''10.0.0.1'', 1000), (''10.0.0.1'', 1000), (''10.0.0.1'', 1000), (''10.0.0.1'', 1000)])"
  by code_simp

text \<open>
  Claim C5. Every measurement that \<^verbatim>\<open>ping_host\<close> returns has integer fields \<^verbatim>\<open>successes\<close>
  and \<^verbatim>\<open>attempts\<close> with \<open>0 \<le> successes \<le> attempts\<close>, and its \<^verbatim>\<open>reachable\<close> is the
  truth value of \<open>successes > 0\<close>, for every number of retries and whatever the attempts
  do.
\<close>

theorem ping_host_invariant:
  assumes "ping_host pyfloat e host retries timeout_ms tr = (Inr m, tr')"
  shows "\<exists>s a. map_of m ''successes'' = Some (PInt s) \<and> map_of m ''attempts'' = Some (PInt a) \<and>
           0 \<le> s \<and> s \<le> a \<and> map_of m ''reachable'' = Some (PBool (0 < s))"
proof -
  from assms obtain a where
    loop: "ping_loop pyfloat e host timeout_ms (nat (max 1 retries))
             \<lparr> best = None, successes = 0, last_rc = None \<rparr> tr = (Inr a, tr')"
    and m: "m = [(''host'', PStr host),
                (''reachable'', PBool (successes a > 0)),
                (''latency_ms'', (case best a of None \<Rightarrow> PNone | Some b \<Rightarrow> PFloat b)),
                (''timestamp'', PStr (utcnow e (length tr'))),
                (''raw_exit'', (case last_rc a of None \<Rightarrow> PNone | Some rc \<Rightarrow> PInt rc)),
                (''attempts'', PInt (max 1 retries)),
                (''successes'', PInt (successes a))]"
    by (auto simp: ping_host_def split: prod.splits sum.splits)
  from ping_loop_bounds [OF loop] have "0 \<le> successes a" "successes a \<le> max 1 retries"
    by (simp_all add: max_def split: if_splits)
  then show ?thesis by (simp add: m)
qed

theorem ping_host_invariant_witness:
  "\<exists>s a. map_of [(''host'', PStr ''10.0.0.1''), (''reachable'', PBool True),
                (''latency_ms'', PFloat 2), (''timestamp'', PStr ''2024-05-01T10:00:00Z''),
                (''raw_exit'', PInt 0), (''attempts'', PInt 4), (''successes'', PInt 3)]
            ''successes'' = Some (PInt s) \<and>
         map_of [(''host'', PStr ''10.0.0.1''), (''reachable'', PBool True),
                (''latency_ms'', PFloat 2), (''timestamp'', PStr ''2024-05-01T10:00:00Z''),
                (''raw_exit'', PInt 0), (''attempts'', PInt 4), (''successes'', PInt 3)]
            ''attempts'' = Some (PInt a) \<and>
         0 \<le> s \<and> s \<le> a \<and>
         map_of [(''host'', PStr ''10.0.0.1''), (''reachable'', PBool True),
                (''latency_ms'', PFloat 2), (''timestamp'', PStr ''2024-05-01T10:00:00Z''),
                (''raw_exit'', PInt 0), (''attempts'', PInt 4), (''successes'', PInt 3)]
            ''reachable'' = Some (PBool (0 < s))"
proof -
  have run: "ping_host decimal_value unparsed_env ''10.0.0.1'' 4 1000 [] =
      (Inr [(''host'', PStr ''10.0.0.1''), (''reachable'', PBool True), (''latency_ms'', PFloat 2),
            (''timestamp'', PStr ''2024-05-01T10:00:00Z''), (''raw_exit'', PInt 0),
            (''attempts'', PInt 4), (''successes'', PInt 3)],
       [(''10.0.0.1'', 1000), (''10.0.0.1'', 1000), (''10.0.0.1'', 1000), (''10.0.0.1'', 1000)])"
    by code_simp
  show ?thesis by (rule ping_host_invariant [OF run])
qed







text \<open>
  Claim C2, as the code has it. \<^verbatim>\<open>ping_once\<close> catches \<^verbatim>\<open>TimeoutExpired\<close> only: a timeout is
  a failed attempt with exit code 124, but a process that cannot be started raises an
  \<^verbatim>\<open>OSError\<close> that neither \<^verbatim>\<open>ping_once\<close> nor \<^verbatim>\<open>ping_host\<close> nor \<^verbatim>\<open>cmd_scan\<close> catches. So when
  the \<open>i\<close>-th process run of a scan is the first that cannot be started, the scan ends
  with that error right after this call: the hosts that follow are not probed and
  no result is saved.
\<close>

theorem launch_failure_aborts_scan:
  assumes "i < length hosts * nat (max 1 retries)"
      and "proc e (length tr + i) = LaunchFailed"
      and "\<forall>j<i. proc e (length tr + j) \<noteq> LaunchFailed"
  shows "ping_result pyfloat LaunchFailed = Inl OSError \<and>
         ping_result pyfloat TimeoutExpired = Inr (False, None, 124) \<and>
         cmd_scan pyfloat e retries timeout_ms hosts results tr =
           (Inl OSError,
            tr @ take (Suc i)
                   (concat (map (\<lambda>h. replicate (nat (max 1 retries)) (h, timeout_ms)) hosts)))"
proof -
  have "hosts \<noteq> []" using assms(1) by auto
  then show ?thesis
    unfolding cmd_scan_def scan_loop_fails [OF assms] by simp
qed

theorem launch_failure_aborts_scan_witness:
  "cmd_scan decimal_value launch_env 3 1000 [''10.0.0.1'', ''10.0.0.2'', ''10.0.0.3''] [] [] =
     (Inl OSError,
      [(''10.0.0.1'', 1000), (''10.0.0.1'', 1000), (''10.0.0.1'', 1000), (''10.0.0.2'', 1000)])"
proof -
  have i: "3 < length [''10.0.0.1'', ''10.0.0.2'', ''10.0.0.3''] * nat (max 1 3)" by simp
  have fail: "proc launch_env (length ([]::calls) + 3) = LaunchFailed"
    by (simp add: launch_env_def)
  have before: "\<forall>j<3. proc launch_env (length ([]::calls) + j) \<noteq> LaunchFailed"
    by (simp add: launch_env_def)
  show ?thesis
    using launch_failure_aborts_scan [OF i fail before, of decimal_value 1000 "[]"]
    by (simp add: eval_nat_numeral)
qed

text \<open>
  The claim as the specification states it fails: in a scan of two hosts whose fourth
  process run cannot be started, that call of \<^verbatim>\<open>ping_once\<close> raises instead of returning
  what a timeout returns, and the scan stops there instead of going on.
\<close>

theorem launch_failure_counterexample:
  "ping_once decimal_value launch_env ''10.0.0.2'' 1000
       [(''10.0.0.1'', 1000), (''10.0.0.1'', 1000), (''10.0.0.1'', 1000)] =
     (Inl OSError,
      [(''10.0.0.1'', 1000), (''10.0.0.1'', 1000), (''10.0.0.1'', 1000), (''10.0.0.2'', 1000)]) \<and>
   ping_result decimal_value TimeoutExpired = Inr (False, None, 124) \<and>
   fst (cmd_scan decimal_value launch_env 3 1000 [''10.0.0.1'', ''10.0.0.2''] [] []) = Inl OSError"
  by code_simp

text \<open>
  What \<^verbatim>\<open>ping_host\<close> returns is a measurement in the sense of the reduction and of the
  report: the properties proved of these below apply to the results of a scan.
\<close>

lemma ping_host_measurement:
  assumes "ping_host pyfloat e host retries timeout_ms tr = (Inr m, tr')"
  shows "is_measurement m \<and> reportable m \<and> row_host m = host"
proof -
  from assms obtain a where
    loop: "ping_loop pyfloat e host timeout_ms (nat (max 1 retries))
             \<lparr> best = None, successes = 0, last_rc = None \<rparr> tr = (Inr a, tr')" and
    m: "m = [(''host'', PStr host),
             (''reachable'', PBool (successes a > 0)),
             (''latency_ms'', (case best a of None \<Rightarrow> PNone | Some b \<Rightarrow> PFloat b)),
             (''timestamp'', PStr (utcnow e (length tr'))),
             (''raw_exit'', (case last_rc a of None \<Rightarrow> PNone | Some rc \<Rightarrow> PInt rc)),
             (''attempts'', PInt (max 1 retries)),
             (''successes'', PInt (successes a))]"
    by (auto simp: ping_host_def split: prod.splits sum.splits)
  show ?thesis
    by (cases "best a") (simp_all add: m is_measurement_def reportable_def row_host_def)
qed

section \<open>The latest record of each host\<close>

lemma py_eq_PStr [simp]: "py_eq k (PStr h) \<longleftrightarrow> k = PStr h"
  by (cases k) auto

lemma dict_get_None: "dict_get d (PStr h) = None \<longleftrightarrow> PStr h \<notin> fst ` set d"
proof (induction d)
  case Nil
  then show ?case by simp
next
  case (Cons p d)
  obtain k v where p: "p = (k, v)" by (cases p)
  show ?case using Cons.IH by (simp add: p)
qed

lemma dict_get_set:
  "dict_get (dict_set d (PStr h) v) (PStr h') =
     (if h' = h then Some v else dict_get d (PStr h'))"
proof (induction d)
  case Nil
  then show ?case by simp
next
  case (Cons p d)
  obtain k w where p: "p = (k, w)" by (cases p)
  show ?case using Cons.IH by (auto simp: p)
qed

lemma dict_set_map_fst:
  "map fst (dict_set d (PStr h) v) =
     (if PStr h \<in> fst ` set d then map fst d else map fst d @ [PStr h])"
proof (induction d)
  case Nil
  then show ?case by simp
next
  case (Cons p d)
  obtain k w where p: "p = (k, w)" by (cases p)
  show ?case using Cons.IH by (simp add: p)
qed

lemma dict_set_keys: "fst ` set (dict_set d (PStr h) v) = insert (PStr h) (fst ` set d)"
proof -
  have "set (map fst (dict_set d (PStr h) v)) = insert (PStr h) (set (map fst d))"
    unfolding dict_set_map_fst by auto
  then show ?thesis by simp
qed

lemma dict_set_values:
  "(k, w) \<in> set (dict_set d (PStr h) v) \<Longrightarrow> (k, w) \<in> set d \<or> (k = PStr h \<and> w = v)"
  by (induction d) (auto split: if_splits)

lemma latest_ok_set:
  assumes "latest_ok d" "is_measurement r"
  shows "latest_ok (dict_set d (PStr (row_host r)) r)"
proof -
  have "distinct (map fst (dict_set d (PStr (row_host r)) r))"
    using assms(1) by (auto simp: dict_set_map_fst latest_ok_def)
  moreover have "list_all (\<lambda>(k, v). k = PStr (row_host v) \<and> is_measurement v)
      (dict_set d (PStr (row_host r)) r)"
    using assms dict_set_values [of _ _ d "row_host r" r]
    unfolding latest_ok_def list_all_iff by fastforce
  ultimately show ?thesis by (simp add: latest_ok_def)
qed

lemma measurement_host: "is_measurement r \<Longrightarrow> map_of r ''host'' = Some (PStr (row_host r))"
  by (auto simp: is_measurement_def row_host_def split: option.splits pyval.splits)

lemma measurement_ts_new:
  "is_measurement r \<Longrightarrow>
     (case map_of r ''timestamp'' of None \<Rightarrow> PStr [] | Some v \<Rightarrow> if truthy v then v else PStr [])
       = PStr (row_ts r)"
  by (auto simp: is_measurement_def row_ts_def split: option.splits pyval.splits)

lemma measurement_ts_old:
  "is_measurement r \<Longrightarrow>
     (case map_of r ''timestamp'' of None \<Rightarrow> PStr [] | Some v \<Rightarrow> v) = PStr (row_ts r)"
  by (auto simp: is_measurement_def row_ts_def split: option.splits pyval.splits)

lemma latest_ok_lookup:
  "latest_ok d \<Longrightarrow> dict_get d (PStr h) = Some v \<Longrightarrow> is_measurement v \<and> row_host v = h"
  by (induction d) (auto simp: latest_ok_def split: if_splits)

lemma latest_step_measurement:
  assumes "latest_ok d" "is_measurement r"
  shows "\<exists>d'. latest_step d r = Inr d' \<and> latest_ok d' \<and>
           fst ` set d' = insert (PStr (row_host r)) (fst ` set d) \<and>
           (\<forall>h. dict_get d' (PStr h) =
              (if h = row_host r
               then (case dict_get d (PStr h) of
                       None \<Rightarrow> Some r
                     | Some b \<Rightarrow> if row_ts b < row_ts r then Some r else Some b)
               else dict_get d (PStr h)))"
proof (cases "dict_get d (PStr (row_host r))")
  case None
  then have "latest_step d r = Inr (dict_set d (PStr (row_host r)) r)"
    using assms(2) by (simp add: latest_step_def measurement_host)
  then show ?thesis
    using None latest_ok_set [OF assms] by (auto simp: dict_get_set dict_set_keys)
next
  case (Some old)
  then have old: "is_measurement old" using latest_ok_lookup [OF assms(1)] by blast
  have key: "PStr (row_host r) \<in> fst ` set d"
    using Some dict_get_None [of d "row_host r"] by simp
  have "latest_step d r =
      Inr (if row_ts old < row_ts r then dict_set d (PStr (row_host r)) r else d)"
    using assms(2) Some
    by (simp add: latest_step_def measurement_host measurement_ts_new measurement_ts_old [OF old]
        py_gt_def)
  then show ?thesis
    using Some latest_ok_set [OF assms] assms(1) key
    by (auto simp: dict_get_set dict_set_keys)
qed

lemma pick_step:
  "pick (case cur of None \<Rightarrow> Some r | Some b \<Rightarrow> if row_ts b < row_ts r then Some r else Some b) rs
     = pick cur (r # rs)"
  by simp

lemma latest_loop_measurements:
  "latest_ok d \<Longrightarrow> list_all is_measurement rs \<Longrightarrow>
   \<exists>d'. latest_loop d rs = Inr d' \<and> latest_ok d' \<and>
        fst ` set d' = fst ` set d \<union> (\<lambda>r. PStr (row_host r)) ` set rs \<and>
        (\<forall>h. dict_get d' (PStr h) = pick (dict_get d (PStr h)) (filter (\<lambda>r. row_host r = h) rs))"
proof (induction rs arbitrary: d)
  case Nil
  then show ?case by simp
next
  case (Cons r rs)
  from Cons.prems have r: "is_measurement r" and rs: "list_all is_measurement rs" by simp_all
  from latest_step_measurement [OF Cons.prems(1) r] obtain d1 where
    step: "latest_step d r = Inr d1" and ok1: "latest_ok d1" and
    keys1: "fst ` set d1 = insert (PStr (row_host r)) (fst ` set d)" and
    get1: "\<forall>h. dict_get d1 (PStr h) =
              (if h = row_host r
               then (case dict_get d (PStr h) of
                       None \<Rightarrow> Some r
                     | Some b \<Rightarrow> if row_ts b < row_ts r then Some r else Some b)
               else dict_get d (PStr h))"
    by blast
  from Cons.IH [OF ok1 rs] obtain d' where
    loop: "latest_loop d1 rs = Inr d'" and ok': "latest_ok d'" and
    keys': "fst ` set d' = fst ` set d1 \<union> (\<lambda>r. PStr (row_host r)) ` set rs" and
    get': "\<forall>h. dict_get d' (PStr h) = pick (dict_get d1 (PStr h)) (filter (\<lambda>r. row_host r = h) rs)"
    by blast
  have "latest_loop d (r # rs) = Inr d'" using step loop by simp
  moreover have "fst ` set d' = fst ` set d \<union> (\<lambda>r. PStr (row_host r)) ` set (r # rs)"
    using keys' keys1 by auto
  moreover have "\<forall>h. dict_get d' (PStr h) =
      pick (dict_get d (PStr h)) (filter (\<lambda>r. row_host r = h) (r # rs))"
    using get' get1 by simp
  ultimately show ?case using ok' by blast
qed

lemma pick_Some:
  "pick (Some b) xs = Some r \<Longrightarrow>
     (r = b \<and> (\<forall>x\<in>set xs. row_ts x \<le> row_ts b)) \<or>
     (\<exists>pre post. xs = pre @ r # post \<and> row_ts b < row_ts r \<and>
        (\<forall>x\<in>set pre. row_ts x < row_ts r) \<and> (\<forall>x\<in>set post. row_ts x \<le> row_ts r))"
proof (induction xs arbitrary: b)
  case Nil
  then show ?case by simp
next
  case (Cons x xs)
  show ?case
  proof (cases "row_ts b < row_ts x")
    case True
    with Cons.prems have "pick (Some x) xs = Some r" by simp
    from Cons.IH [OF this] show ?thesis
    proof
      assume "r = x \<and> (\<forall>y\<in>set xs. row_ts y \<le> row_ts x)"
      then have "x # xs = [] @ r # xs \<and> row_ts b < row_ts r \<and>
          (\<forall>y\<in>set []. row_ts y < row_ts r) \<and> (\<forall>y\<in>set xs. row_ts y \<le> row_ts r)"
        using True by simp
      then show ?thesis by blast
    next
      assume "\<exists>pre post. xs = pre @ r # post \<and> row_ts x < row_ts r \<and>
          (\<forall>y\<in>set pre. row_ts y < row_ts r) \<and> (\<forall>y\<in>set post. row_ts y \<le> row_ts r)"
      then obtain pre post where p: "xs = pre @ r # post" "row_ts x < row_ts r"
          "\<forall>y\<in>set pre. row_ts y < row_ts r" "\<forall>y\<in>set post. row_ts y \<le> row_ts r"
        by blast
      then have "x # xs = (x # pre) @ r # post \<and> row_ts b < row_ts r \<and>
          (\<forall>y\<in>set (x # pre). row_ts y < row_ts r) \<and> (\<forall>y\<in>set post. row_ts y \<le> row_ts r)"
        using True by auto
      then show ?thesis by blast
    qed
  next
    case False
    with Cons.prems have "pick (Some b) xs = Some r" by simp
    from Cons.IH [OF this] show ?thesis
    proof
      assume "r = b \<and> (\<forall>y\<in>set xs. row_ts y \<le> row_ts b)"
      then show ?thesis using False by auto
    next
      assume "\<exists>pre post. xs = pre @ r # post \<and> row_ts b < row_ts r \<and>
          (\<forall>y\<in>set pre. row_ts y < row_ts r) \<and> (\<forall>y\<in>set post. row_ts y \<le> row_ts r)"
      then obtain pre post where p: "xs = pre @ r # post" "row_ts b < row_ts r"
          "\<forall>y\<in>set pre. row_ts y < row_ts r" "\<forall>y\<in>set post. row_ts y \<le> row_ts r"
        by blast
      then have "x # xs = (x # pre) @ r # post \<and> row_ts b < row_ts r \<and>
          (\<forall>y\<in>set (x # pre). row_ts y < row_ts r) \<and> (\<forall>y\<in>set post. row_ts y \<le> row_ts r)"
        using False by auto
      then show ?thesis by blast
    qed
  qed
qed

lemma pick_None:
  assumes "pick None xs = Some r"
  shows "\<exists>pre post. xs = pre @ r # post \<and>
        (\<forall>x\<in>set pre. row_ts x < row_ts r) \<and> (\<forall>x\<in>set post. row_ts x \<le> row_ts r)"
proof (cases xs)
  case Nil
  with assms show ?thesis by simp
next
  case (Cons x xs')
  with assms have "pick (Some x) xs' = Some r" by simp
  from pick_Some [OF this] show ?thesis
  proof
    assume "r = x \<and> (\<forall>y\<in>set xs'. row_ts y \<le> row_ts x)"
    then have "xs = [] @ r # xs' \<and> (\<forall>y\<in>set []. row_ts y < row_ts r) \<and>
        (\<forall>y\<in>set xs'. row_ts y \<le> row_ts r)"
      using Cons by simp
    then show ?thesis by blast
  next
    assume "\<exists>pre post. xs' = pre @ r # post \<and> row_ts x < row_ts r \<and>
        (\<forall>y\<in>set pre. row_ts y < row_ts r) \<and> (\<forall>y\<in>set post. row_ts y \<le> row_ts r)"
    then obtain pre post where p: "xs' = pre @ r # post" "row_ts x < row_ts r"
        "\<forall>y\<in>set pre. row_ts y < row_ts r" "\<forall>y\<in>set post. row_ts y \<le> row_ts r"
      by blast
    then have "xs = (x # pre) @ r # post \<and> (\<forall>y\<in>set (x # pre). row_ts y < row_ts r) \<and>
        (\<forall>y\<in>set post. row_ts y \<le> row_ts r)"
      using Cons by auto
    then show ?thesis by blast
  qed
qed

lemma split_filter:
  "filter P xs = pre @ r # post \<Longrightarrow>
     \<exists>us vs. xs = us @ r # vs \<and> filter P us = pre \<and> filter P vs = post"
proof (induction xs arbitrary: pre)
  case Nil
  then show ?case by simp
next
  case (Cons x xs)
  show ?case
  proof (cases "P x")
    case False
    with Cons.prems have "filter P xs = pre @ r # post" by simp
    from Cons.IH [OF this] obtain us vs where
      "xs = us @ r # vs" "filter P us = pre" "filter P vs = post" by blast
    then have "x # xs = (x # us) @ r # vs \<and> filter P (x # us) = pre \<and> filter P vs = post"
      using False by simp
    then show ?thesis by blast
  next
    case True
    with Cons.prems have eq: "x # filter P xs = pre @ r # post" by simp
    show ?thesis
    proof (cases pre)
      case Nil
      with eq have "x # xs = [] @ r # xs \<and> filter P [] = pre \<and> filter P xs = post" by simp
      then show ?thesis by blast
    next
      case (Cons y pre')
      with eq have "y = x" and "filter P xs = pre' @ r # post" by simp_all
      from Cons.IH [OF this(2)] obtain us vs where
        "xs = us @ r # vs" "filter P us = pre'" "filter P vs = post" by blast
      then have "x # xs = (x # us) @ r # vs \<and> filter P (x # us) = pre \<and> filter P vs = post"
        using True Cons \<open>y = x\<close> by simp
      then show ?thesis by blast
    qed
  qed
qed

lemma latest_ok_member:
  "latest_ok d \<Longrightarrow> (k, v) \<in> set d \<Longrightarrow> k = PStr (row_host v) \<and> dict_get d k = Some v"
proof (induction d)
  case Nil
  then show ?case by simp
next
  case (Cons p d)
  obtain k' v' where p: "p = (k', v')" by (cases p)
  from Cons.prems(1) have ok: "latest_ok d" and k': "k' = PStr (row_host v')"
    and fresh: "k' \<notin> fst ` set d"
    by (auto simp: latest_ok_def p)
  show ?case
  proof (cases "(k, v) = (k', v')")
    case True
    then show ?thesis using k' by (simp add: p)
  next
    case False
    then have in_d: "(k, v) \<in> set d" using Cons.prems(2) p by auto
    from Cons.IH [OF ok in_d] have kv: "k = PStr (row_host v)" "dict_get d k = Some v" by blast+
    have "k \<noteq> k'" using in_d fresh by force
    then show ?thesis using kv k' by (cases k) (auto simp: p)
  qed
qed

lemma latest_ok_hosts:
  "latest_ok d \<Longrightarrow> map fst d = map PStr (map row_host (map snd d))"
  by (induction d) (auto simp: latest_ok_def)

lemma latest_loop_history:
  assumes "list_all is_measurement history"
  shows "\<exists>d. latest_loop [] history = Inr d \<and> latest_ok d \<and>
           fst ` set d = (\<lambda>r. PStr (row_host r)) ` set history \<and>
           (\<forall>h. dict_get d (PStr h) = pick None (filter (\<lambda>r. row_host r = h) history))"
proof -
  have "latest_ok []" by (simp add: latest_ok_def)
  from latest_loop_measurements [OF this assms] show ?thesis by simp
qed

lemma latest_per_host_rows:
  assumes "list_all is_measurement history"
  shows "\<exists>rows. latest_per_host history = Inr rows \<and>
           distinct (map row_host rows) \<and>
           set (map row_host rows) = set (map row_host history) \<and>
           (\<forall>r\<in>set rows. \<exists>pre post. history = pre @ r # post \<and>
              (\<forall>x\<in>set pre. row_host x = row_host r \<longrightarrow> row_ts x < row_ts r) \<and>
              (\<forall>x\<in>set post. row_host x = row_host r \<longrightarrow> row_ts x \<le> row_ts r))"
proof -
  from latest_loop_history [OF assms] obtain d where
    loop: "latest_loop [] history = Inr d" and ok: "latest_ok d" and
    keys: "fst ` set d = (\<lambda>r. PStr (row_host r)) ` set history" and
    get: "\<forall>h. dict_get d (PStr h) = pick None (filter (\<lambda>r. row_host r = h) history)"
    by blast
  let ?rows = "map snd d"
  have res: "latest_per_host history = Inr ?rows"
    by (simp add: latest_per_host_def loop)
  have inj: "distinct ys" if "distinct (map PStr ys)" for ys :: "string list"
    using that by (simp add: distinct_map)
  have "distinct (map fst d)" using ok by (simp add: latest_ok_def)
  then have "distinct (map PStr (map row_host ?rows))"
    by (simp only: latest_ok_hosts [OF ok])
  then have dist: "distinct (map row_host ?rows)"
    by (rule inj)
  have "set (map fst d) = PStr ` set (map row_host ?rows)"
    by (simp only: latest_ok_hosts [OF ok] set_map)
  moreover have "set (map fst d) = PStr ` set (map row_host history)"
    using keys by (simp add: image_image)
  ultimately have "PStr ` set (map row_host ?rows) = PStr ` set (map row_host history)"
    by simp
  moreover have "inj PStr" by (simp add: inj_on_def)
  ultimately have hosts: "set (map row_host ?rows) = set (map row_host history)"
    by (simp only: inj_image_eq_iff)
  have each: "\<exists>pre post. history = pre @ r # post \<and>
              (\<forall>x\<in>set pre. row_host x = row_host r \<longrightarrow> row_ts x < row_ts r) \<and>
              (\<forall>x\<in>set post. row_host x = row_host r \<longrightarrow> row_ts x \<le> row_ts r)"
    if "r \<in> set ?rows" for r
  proof -
    from that obtain k where "(k, r) \<in> set d" by auto
    from latest_ok_member [OF ok this] have "dict_get d (PStr (row_host r)) = Some r"
      by metis
    then have "pick None (filter (\<lambda>x. row_host x = row_host r) history) = Some r"
      using get by simp
    from pick_None [OF this] obtain pre post where
      f: "filter (\<lambda>x. row_host x = row_host r) history = pre @ r # post" and
      pre: "\<forall>x\<in>set pre. row_ts x < row_ts r" and post: "\<forall>x\<in>set post. row_ts x \<le> row_ts r"
      by blast
    from split_filter [OF f] obtain us vs where
      h: "history = us @ r # vs" and us: "filter (\<lambda>x. row_host x = row_host r) us = pre"
      and vs: "filter (\<lambda>x. row_host x = row_host r) vs = post"
      by blast
    have "\<forall>x\<in>set us. row_host x = row_host r \<longrightarrow> row_ts x < row_ts r"
      using pre us by auto
    moreover have "\<forall>x\<in>set vs. row_host x = row_host r \<longrightarrow> row_ts x \<le> row_ts r"
      using post vs by auto
    ultimately show ?thesis using h by blast
  qed
  show ?thesis using res dist hosts each by blast
qed

text \<open>
  Claim C3. For every history of measurements the reduction returns one record for
  each host of the history and no other: the hosts of the result are pairwise distinct
  and are exactly the hosts of the history, every record of the result is a record of
  the history, and its timestamp string is the greatest, in the lexicographic order of
  strings, among the records of its host.
\<close>

theorem latest_per_host_greatest:
  assumes "list_all is_measurement history"
  shows "\<exists>rows. latest_per_host history = Inr rows \<and>
           distinct (map row_host rows) \<and>
           set (map row_host rows) = set (map row_host history) \<and>
           set rows \<subseteq> set history \<and>
           (\<forall>r\<in>set rows. \<forall>x\<in>set history. row_host x = row_host r \<longrightarrow> row_ts x \<le> row_ts r)"
proof -
  from latest_per_host_rows [OF assms] obtain rows where
    res: "latest_per_host history = Inr rows" and
    dist: "distinct (map row_host rows)" and
    hosts: "set (map row_host rows) = set (map row_host history)" and
    each: "\<forall>r\<in>set rows. \<exists>pre post. history = pre @ r # post \<and>
              (\<forall>x\<in>set pre. row_host x = row_host r \<longrightarrow> row_ts x < row_ts r) \<and>
              (\<forall>x\<in>set post. row_host x = row_host r \<longrightarrow> row_ts x \<le> row_ts r)"
    by blast
  have sub: "set rows \<subseteq> set history"
  proof
    fix r assume "r \<in> set rows"
    with each obtain pre post where "history = pre @ r # post" by blast
    then show "r \<in> set history" by simp
  qed
  have "\<forall>r\<in>set rows. \<forall>x\<in>set history. row_host x = row_host r \<longrightarrow> row_ts x \<le> row_ts r"
  proof (intro ballI impI)
    fix r x assume r: "r \<in> set rows" and x: "x \<in> set history" and same: "row_host x = row_host r"
    from each r obtain pre post where
      h: "history = pre @ r # post" and
      pre: "\<forall>y\<in>set pre. row_host y = row_host r \<longrightarrow> row_ts y < row_ts r" and
      post: "\<forall>y\<in>set post. row_host y = row_host r \<longrightarrow> row_ts y \<le> row_ts r"
      by blast
    from x h have "x \<in> set pre \<or> x = r \<or> x \<in> set post" by auto
    then show "row_ts x \<le> row_ts r"
      using pre post same by (auto simp: less_imp_le)
  qed
  then show ?thesis using res dist hosts sub by blast
qed

text \<open>The example of the claim: the history A at 10, B at 5, A at 20 gives A at 20 and B at 5.\<close>

theorem latest_per_host_greatest_witness:
  "latest_per_host [rowA10, rowB5, rowA20] = Inr [rowA20, rowB5] \<and>
   cmd_report [rowA10, rowB5, rowA20] = Inr (Some [rowB5, rowA20]) \<and>
   map_option snd (projr (cmd_export True [rowA10, rowB5, rowA20])) = Some [rowA20, rowB5]"
proof -
  have m: "list_all is_measurement [rowA10, rowB5, rowA20]" by code_simp
  have run: "latest_per_host [rowA10, rowB5, rowA20] = Inr [rowA20, rowB5]" by code_simp
  have rest: "cmd_report [rowA10, rowB5, rowA20] = Inr (Some [rowB5, rowA20])"
    "map_option snd (projr (cmd_export True [rowA10, rowB5, rowA20])) = Some [rowA20, rowB5]"
    by code_simp+
  from latest_per_host_greatest [OF m] show ?thesis using run rest by simp
qed




section \<open>The export header\<close>

lemma fold_union:
  "fold (\<lambda>r fields. fields \<union> f r) rows S = S \<union> (\<Union>r\<in>set rows. f r)"
  by (induction rows arbitrary: S) auto

lemma extra_fields_eq: "extra_fields rows = (\<Union>r\<in>set rows. set (map fst r))"
  by (simp add: extra_fields_def fold_union)

lemma finite_extra_fields: "finite (extra_fields rows)"
  by (simp add: extra_fields_eq)

lemma fieldnames_extras:
  "\<exists>extras. fieldnames rows = [''host'', ''reachable'', ''latency_ms'', ''timestamp'', ''raw_exit''] @ extras \<and>
      sorted extras \<and> distinct extras \<and>
      set extras = (\<Union>r\<in>set rows. set (map fst r)) -
                     {''host'', ''reachable'', ''latency_ms'', ''timestamp'', ''raw_exit''}"
proof -
  let ?extras = "filter (\<lambda>k. k \<notin> set base_fields) (sorted_list_of_set (extra_fields rows))"
  have "fieldnames rows = base_fields @ ?extras" by (simp add: fieldnames_def)
  moreover have "sorted ?extras" by (rule sorted_wrt_filter) simp
  moreover have "distinct ?extras" by simp
  moreover have "set ?extras = extra_fields rows - set base_fields"
    using finite_extra_fields [of rows] by auto
  ultimately show ?thesis
    unfolding extra_fields_eq by (simp add: base_fields_def)
qed

text \<open>
  Claim C9. Whenever \<^verbatim>\<open>cmd_export\<close> writes a file, its header is the five fixed columns
  \<^verbatim>\<open>host\<close>, \<^verbatim>\<open>reachable\<close>, \<^verbatim>\<open>latency_ms\<close>, \<^verbatim>\<open>timestamp\<close>, \<^verbatim>\<open>raw_exit\<close> in this order, followed
  by the other keys: these are sorted, each occurs once, and they are exactly the keys
  that some exported row has and that are not fixed columns. A key that no row has is
  therefore no column.
\<close>

theorem export_header:
  assumes "cmd_export latest_only results = Inr (Some (header, rows))"
  shows "\<exists>extras. header = [''host'', ''reachable'', ''latency_ms'', ''timestamp'', ''raw_exit''] @ extras \<and>
      sorted extras \<and> distinct extras \<and>
      set extras = (\<Union>r\<in>set rows. set (map fst r)) -
                     {''host'', ''reachable'', ''latency_ms'', ''timestamp'', ''raw_exit''}"
proof -
  from assms have "header = fieldnames rows"
    by (auto simp: cmd_export_def split: if_splits sum.splits)
  then show ?thesis using fieldnames_extras [of rows] by simp
qed

text \<open>
  Rows with \<^verbatim>\<open>attempts\<close> and \<^verbatim>\<open>successes\<close> add these two columns after the fixed ones; rows
  without them give the fixed columns alone.
\<close>

theorem export_header_witness:
  "(\<exists>extras. [''host'', ''reachable'', ''latency_ms'', ''timestamp'', ''raw_exit'', ''attempts'', ''successes'']
        = [''host'', ''reachable'', ''latency_ms'', ''timestamp'', ''raw_exit''] @ extras \<and>
      sorted extras \<and> distinct extras \<and>
      set extras = (\<Union>r\<in>set [rowA10, upB]. set (map fst r)) -
                     {''host'', ''reachable'', ''latency_ms'', ''timestamp'', ''raw_exit''}) \<and>
   cmd_export False [rowA10, rowB5] =
     Inr (Some ([''host'', ''reachable'', ''latency_ms'', ''timestamp'', ''raw_exit''], [rowA10, rowB5]))"
proof -
  have run: "cmd_export False [rowA10, upB] =
      Inr (Some ([''host'', ''reachable'', ''latency_ms'', ''timestamp'', ''raw_exit'', ''attempts'', ''successes''],
                 [rowA10, upB]))"
    by code_simp
  have run2: "cmd_export False [rowA10, rowB5] =
     Inr (Some ([''host'', ''reachable'', ''latency_ms'', ''timestamp'', ''raw_exit''], [rowA10, rowB5]))"
    by code_simp
  show ?thesis using export_header [OF run] run2 by blast
qed

section \<open>The order of the report\<close>

lemma reportable_key:
  "reportable r \<Longrightarrow>
     report_key r = Inr (\<not> row_reachable r, PFloat (sort_latency r), PStr (row_host r))"
  by (auto simp: reportable_def report_key_def row_reachable_def sort_latency_def row_latency_def
      row_host_def split: option.splits pyval.splits)

lemma key_lt_rank:
  "key_lt (a, PFloat x, PStr h) (b, PFloat y, PStr h') = Inr ((a, x, h) < (b, y, h'))"
  by (auto simp: less_prod_def less_le)

lemma keyed_reportable:
  "list_all reportable rows \<Longrightarrow>
     keyed report_key rows =
       Inr (map (\<lambda>r. ((\<not> row_reachable r, PFloat (sort_latency r), PStr (row_host r)), r)) rows)"
  by (induction rows) (simp_all add: reportable_key)

lemma key_lt_pykey: "key_lt (pykey r) (pykey r') = Inr (rank r < rank r')"
  by (simp only: pykey_def rank_def key_lt_rank)

lemma insert_sorted_rank:
  "insert_sorted key_lt (pykey x, x) (map (\<lambda>r. (pykey r, r)) ys) =
     Inr (map (\<lambda>r. (pykey r, r)) (insort_key rank x ys))"
proof (induction ys)
  case Nil
  then show ?case by simp
next
  case (Cons y ys)
  show ?case
  proof (cases "rank y < rank x")
    case True
    then have "\<not> rank x \<le> rank y" by simp
    then show ?thesis using True Cons.IH by (simp add: key_lt_pykey)
  next
    case False
    then have "rank x \<le> rank y" by simp
    then show ?thesis using False by (simp add: key_lt_pykey)
  qed
qed

lemma sort_keyed_rank:
  "sort_keyed key_lt (map (\<lambda>r. (pykey r, r)) rows) =
     Inr (map (\<lambda>r. (pykey r, r)) (sort_key rank rows))"
  by (induction rows) (simp_all add: insert_sorted_rank)

lemma report_sort_reportable:
  assumes "list_all reportable rows"
  shows "report_sort rows = Inr (sort_key rank rows)"
proof -
  have "keyed report_key rows = Inr (map (\<lambda>r. (pykey r, r)) rows)"
    using keyed_reportable [OF assms] by (simp add: pykey_def)
  then show ?thesis
    by (simp add: report_sort_def py_sort_def sort_keyed_rank comp_def)
qed

lemma rank_le: "rank r \<le> rank r' \<longleftrightarrow> report_before r r'"
  by (auto simp: rank_def report_before_def less_eq_prod_def)

lemma sorted_rank: "sorted (map rank rows) \<longleftrightarrow> sorted_wrt report_before rows"
  by (simp add: sorted_wrt_map rank_le)

lemma rank_inj:
  assumes "distinct (map row_host rows)"
  shows "inj_on rank (set rows)"
proof (rule inj_onI)
  fix r r' assume "r \<in> set rows" "r' \<in> set rows" "rank r = rank r'"
  then have "row_host r = row_host r'" by (simp add: rank_def)
  moreover have "inj_on row_host (set rows)" using assms by (simp add: distinct_map)
  ultimately show "r = r'" using \<open>r \<in> set rows\<close> \<open>r' \<in> set rows\<close> by (simp add: inj_on_def)
qed

lemma after_missing_latency:
  assumes "sorted_wrt report_before out" "out = pre @ r # post"
    "row_reachable r" "row_latency r = None" "x \<in> set post"
  shows "\<not> row_reachable x \<or> row_latency x = None \<or> (\<exists>l. row_latency x = Some l \<and> 1000000000 \<le> l)"
proof -
  from assms(1,2,5) have "report_before r x"
    by (simp add: sorted_wrt_append)
  then show ?thesis
    using assms(3,4) by (cases "row_latency x") (auto simp: report_before_def sort_latency_def)
qed

text \<open>
  Claim C8, as the code has it. For rows with a boolean \<^verbatim>\<open>reachable\<close>, a float or missing
  \<^verbatim>\<open>latency_ms\<close> and a string \<^verbatim>\<open>host\<close>, the sort of \<^verbatim>\<open>cmd_report\<close> returns a rearrangement
  of the rows in which reachable rows stand before unreachable ones, then rows of
  smaller latency first, a missing latency counting as exactly \<open>1e9\<close>, then rows of
  smaller host name first. So after a reachable row without latency come only
  unreachable rows and reachable rows whose latency is missing or at least \<open>1e9\<close>. When
  the host names are pairwise distinct, as in latest-per-host rows, the result does not
  depend on the order in which the rows are given.
\<close>

theorem report_sort_order:
  assumes "list_all reportable rows"
  shows "\<exists>out. report_sort rows = Inr out \<and> mset out = mset rows \<and>
           sorted_wrt report_before out \<and>
           (\<forall>pre r post. out = pre @ r # post \<and> row_reachable r \<and> row_latency r = None \<longrightarrow>
              (\<forall>x\<in>set post. \<not> row_reachable x \<or> row_latency x = None \<or>
                 (\<exists>l. row_latency x = Some l \<and> 1000000000 \<le> l))) \<and>
           (distinct (map row_host rows) \<longrightarrow>
              (\<forall>rows'. mset rows' = mset rows \<longrightarrow> report_sort rows' = Inr out))"
proof -
  let ?out = "sort_key rank rows"
  have res: "report_sort rows = Inr ?out" by (rule report_sort_reportable [OF assms])
  have perm: "mset ?out = mset rows" by simp
  have sorted: "sorted_wrt report_before ?out"
    using sorted_sort_key [of rank rows] by (simp only: sorted_rank)
  have missing: "\<forall>pre r post. ?out = pre @ r # post \<and> row_reachable r \<and> row_latency r = None \<longrightarrow>
              (\<forall>x\<in>set post. \<not> row_reachable x \<or> row_latency x = None \<or>
                 (\<exists>l. row_latency x = Some l \<and> 1000000000 \<le> l))"
    using after_missing_latency [OF sorted] by blast
  have det: "report_sort rows' = Inr ?out"
    if d: "distinct (map row_host rows)" and m: "mset rows' = mset rows" for rows'
  proof -
    have "set rows' = set rows" using m by (rule mset_eq_setD)
    then have "list_all reportable rows'" using assms by (simp add: list_all_iff)
    then have "report_sort rows' = Inr (sort_key rank rows')" by (rule report_sort_reportable)
    moreover have "sort_key rank rows' = ?out"
    proof (rule sort_key_inj_key_eq)
      show "mset rows' = mset ?out" using m by simp
      show "inj_on rank (set rows')" using rank_inj [OF d] \<open>set rows' = set rows\<close> by simp
      show "sorted (map rank ?out)" by simp
    qed
    ultimately show ?thesis by simp
  qed
  show ?thesis using res perm sorted missing det by blast
qed

text \<open>
  The example of the claim: A unreachable, B reachable at 5.0, C reachable without
  latency are printed as B, C, A, in whatever order they are given.
\<close>

theorem report_sort_order_witness:
  "report_sort [downA, upB, upC] = Inr [upB, upC, downA] \<and>
   report_sort [upC, downA, upB] = Inr [upB, upC, downA] \<and>
   report_sort [upC, slowD, downA, upB] = Inr [upB, upC, slowD, downA]"
proof -
  have m: "list_all reportable [downA, upB, upC]" by code_simp
  have run: "report_sort [downA, upB, upC] = Inr [upB, upC, downA]"
    "report_sort [upC, downA, upB] = Inr [upB, upC, downA]"
    "report_sort [upC, slowD, downA, upB] = Inr [upB, upC, slowD, downA]"
    by code_simp+
  from report_sort_order [OF m] show ?thesis using run by simp
qed

text \<open>
  The claim as the specification states it fails: a reachable host without latency is
  not always last among the reachable ones, since a reachable host whose latency
  exceeds \<open>1e9\<close> is printed after it.
\<close>

theorem report_sort_counterexample:
  "report_sort [slowD, upC] = Inr [upC, slowD] \<and>
   row_reachable upC \<and> row_latency upC = None \<and>
   row_reachable slowD \<and> row_latency slowD = Some 2000000000"
  by code_simp

text \<open>
  \<^verbatim>\<open>cmd_report\<close> as a whole: on a history that is not empty it prints the latest records
  of the hosts in this order.
\<close>

lemma cmd_report_sorted:
  assumes "history \<noteq> []" "list_all is_measurement history" "list_all reportable history"
  shows "\<exists>rows out. latest_per_host history = Inr rows \<and> cmd_report history = Inr (Some out) \<and>
           mset out = mset rows \<and> sorted_wrt report_before out"
proof -
  from latest_per_host_rows [OF assms(2)] obtain rows where
    rows: "latest_per_host history = Inr rows" and
    each: "\<forall>r\<in>set rows. \<exists>pre post. history = pre @ r # post \<and>
              (\<forall>x\<in>set pre. row_host x = row_host r \<longrightarrow> row_ts x < row_ts r) \<and>
              (\<forall>x\<in>set post. row_host x = row_host r \<longrightarrow> row_ts x \<le> row_ts r)"
    by blast
  have "set rows \<subseteq> set history"
  proof
    fix r assume "r \<in> set rows"
    with each obtain pre post where "history = pre @ r # post" by blast
    then show "r \<in> set history" by simp
  qed
  then have "list_all reportable rows" using assms(3) by (auto simp: list_all_iff)
  then have sort: "report_sort rows = Inr (sort_key rank rows)"
    by (rule report_sort_reportable)
  have "sorted_wrt report_before (sort_key rank rows)"
    using sorted_sort_key [of rank rows] by (simp only: sorted_rank)
  moreover have "cmd_report history = Inr (Some (sort_key rank rows))"
    using assms(1) rows sort by (simp add: cmd_report_def)
  ultimately show ?thesis using rows by simp
qed

section \<open>Matches of the latency pattern\<close>

lemma starts_Chr: "P c \<Longrightarrow> starts (Chr P) (c # cs) ([c], cs, None)"
  by (simp add: starts_def)

lemma starts_Seq:
  "starts a s (u, s1, g1) \<Longrightarrow> starts b s1 (v, s2, g2) \<Longrightarrow>
     starts (Seq a b) s (u @ v, s2, (case g2 of None \<Rightarrow> g1 | Some w \<Rightarrow> Some w))"
  by (auto simp: starts_def)

lemma starts_Opt_take: "starts a s x \<Longrightarrow> starts (Opt a) s x"
  by (auto simp: starts_def)

lemma starts_Opt_skip: "rmatch a s = [] \<Longrightarrow> starts (Opt a) s ([], s, None)"
  by (simp add: starts_def)

lemma starts_Group: "starts a s (u, s1, g) \<Longrightarrow> starts (Group a) s (u, s1, Some u)"
  by (auto simp: starts_def)

lemma starts_Many: "starts (Many P) s (takeWhile P s, dropWhile P s, None)"
proof -
  let ?n = "length (takeWhile P s)"
  have "take ?n s = takeWhile P s" by (rule takeWhile_eq_take [symmetric])
  moreover have "drop ?n s = dropWhile P s" by (rule dropWhile_eq_drop [symmetric])
  ultimately show ?thesis by (simp add: starts_def)
qed

lemma starts_Many1:
  assumes "takeWhile P s \<noteq> []"
  shows "starts (Many1 P) s (takeWhile P s, dropWhile P s, None)"
proof -
  let ?n = "length (takeWhile P s)"
  have "take ?n s = takeWhile P s" by (rule takeWhile_eq_take [symmetric])
  moreover have "drop ?n s = dropWhile P s" by (rule dropWhile_eq_drop [symmetric])
  moreover have "Suc 0 \<le> ?n" using assms by (cases "takeWhile P s") simp_all
  then have "[1 ..< Suc ?n] = [1 ..< ?n] @ [?n]" by (simp add: upt_Suc)
  ultimately show ?thesis by (simp add: starts_def)
qed

lemma while_append:
  assumes "list_all P xs" "ys = [] \<or> \<not> P (hd ys)"
  shows "takeWhile P (xs @ ys) = xs" "dropWhile P (xs @ ys) = ys"
proof -
  have t: "takeWhile P ys = []" using assms(2) by (cases ys) auto
  have d: "dropWhile P ys = ys" using assms(2) by (cases ys) auto
  show "takeWhile P (xs @ ys) = xs" using assms(1) t
    by (induction xs) auto
  show "dropWhile P (xs @ ys) = ys" using assms(1) d
    by (induction xs) auto
qed

lemma digit_not_space: "is_digit c \<Longrightarrow> \<not> is_space c"
  by (auto simp: is_digit_def is_space_def)

lemma digit_not_mark:
  "is_digit c \<Longrightarrow> c \<noteq> CHR ''.'' \<and> c \<noteq> CHR ''='' \<and> c \<noteq> CHR ''<'' \<and>
     c \<noteq> CHR ''m'' \<and> c \<noteq> CHR ''M''"
  by (auto simp: is_digit_def)

lemma space_not_mark:
  "is_space c \<Longrightarrow> c \<noteq> CHR ''.'' \<and> c \<noteq> CHR ''='' \<and> c \<noteq> CHR ''<'' \<and>
     c \<noteq> CHR ''m'' \<and> c \<noteq> CHR ''M''"
  by (auto simp: is_space_def)

lemma letter_m_plain: "\<not> is_digit CHR ''m''" "\<not> is_digit CHR ''M''"
    "\<not> is_space CHR ''m''" "\<not> is_space CHR ''M''" "\<not> is_digit CHR ''.''"
  by (simp_all add: is_digit_def is_space_def)

lemma spelled_time:
  assumes "spelled ''time'' ''TIME'' tm"
  obtains c1 c2 c3 c4 where "tm = [c1, c2, c3, c4]"
    "c1 = CHR ''t'' \<or> c1 = CHR ''T''" "c2 = CHR ''i'' \<or> c2 = CHR ''I''"
    "c3 = CHR ''m'' \<or> c3 = CHR ''M''" "c4 = CHR ''e'' \<or> c4 = CHR ''E''"
proof -
  from assms obtain c1 r1 where 1: "tm = c1 # r1" by (cases tm) simp_all
  from assms 1 obtain c2 r2 where 2: "r1 = c2 # r2" by (cases r1) simp_all
  from assms 1 2 obtain c3 r3 where 3: "r2 = c3 # r3" by (cases r2) simp_all
  from assms 1 2 3 obtain c4 r4 where 4: "r3 = c4 # r4" by (cases r3) simp_all
  from assms 1 2 3 4 have 5: "r4 = []" by (cases r4) simp_all
  show ?thesis using that [of c1 c2 c3 c4] assms 1 2 3 4 5 by simp
qed

lemma spelled_ms:
  assumes "spelled ''ms'' ''MS'' ms"
  obtains d1 d2 where "ms = [d1, d2]"
    "d1 = CHR ''m'' \<or> d1 = CHR ''M''" "d2 = CHR ''s'' \<or> d2 = CHR ''S''"
proof -
  from assms obtain d1 r1 where 1: "ms = d1 # r1" by (cases ms) simp_all
  from assms 1 obtain d2 r2 where 2: "r1 = d2 # r2" by (cases r1) simp_all
  from assms 1 2 have 3: "r2 = []" by (cases r2) simp_all
  show ?thesis using that [of d1 d2] assms 1 2 3 by simp
qed

lemma decimal_numeral_parts:
  assumes "decimal_numeral num"
  obtains ip fr where "num = ip @ fr" "ip \<noteq> []" "list_all is_digit ip"
    "fr = [] \<or> (\<exists>fp. fr = CHR ''.'' # fp \<and> fp \<noteq> [] \<and> list_all is_digit fp)"
proof -
  let ?ip = "takeWhile is_digit num" and ?r = "dropWhile is_digit num"
  have 1: "num = ?ip @ ?r" by simp
  have 2: "?ip \<noteq> []" using assms by (simp add: decimal_numeral_def Let_def)
  have 3: "list_all is_digit ?ip" by (auto simp: list_all_iff dest: set_takeWhileD)
  have 4: "?r = [] \<or> (\<exists>fp. ?r = CHR ''.'' # fp \<and> fp \<noteq> [] \<and> list_all is_digit fp)"
  proof (cases ?r)
    case Nil
    then show ?thesis by simp
  next
    case (Cons c fp)
    then show ?thesis using assms by (simp add: decimal_numeral_def Let_def)
  qed
  show ?thesis using that [OF 1 2 3 4] .
qed

lemma starts_letter: "c = l \<or> c = u \<Longrightarrow> starts (letter l u) (c # cs) ([c], cs, None)"
  unfolding letter_def by (rule starts_Chr)

lemma starts_spaces:
  assumes "list_all is_space ws" "rest = [] \<or> \<not> is_space (hd rest)"
  shows "starts (Many is_space) (ws @ rest) (ws, rest, None)"
proof -
  have "takeWhile is_space (ws @ rest) = ws" "dropWhile is_space (ws @ rest) = rest"
    by (rule while_append [OF assms])+
  then show ?thesis using starts_Many [of is_space "ws @ rest"] by simp
qed

lemma starts_digits:
  assumes "list_all is_digit ds" "ds \<noteq> []" "rest = [] \<or> \<not> is_digit (hd rest)"
  shows "starts (Many1 is_digit) (ds @ rest) (ds, rest, None)"
proof -
  have "takeWhile is_digit (ds @ rest) = ds" "dropWhile is_digit (ds @ rest) = rest"
    by (rule while_append [OF assms(1,3)])+
  then show ?thesis using starts_Many1 [of is_digit "ds @ rest"] assms(2) by simp
qed

lemma starts_fraction:
  assumes "fr = [] \<or> (\<exists>fp. fr = CHR ''.'' # fp \<and> fp \<noteq> [] \<and> list_all is_digit fp)"
      and "rest = [] \<or> \<not> is_digit (hd rest)"
      and "rest = [] \<or> hd rest \<noteq> CHR ''.''"
  shows "starts (Opt (Seq (Chr (\<lambda>c. c = CHR ''.'')) (Many1 is_digit))) (fr @ rest) (fr, rest, None)"
  using assms(1)
proof
  assume f: "fr = []"
  have "rmatch (Chr (\<lambda>c. c = CHR ''.'')) rest = []"
  proof (cases rest)
    case Nil
    then show ?thesis by simp
  next
    case (Cons c cs)
    then have "c \<noteq> CHR ''.''" using assms(3) by simp
    then show ?thesis using Cons by simp
  qed
  then have "rmatch (Seq (Chr (\<lambda>c. c = CHR ''.'')) (Many1 is_digit)) rest = []" by simp
  from starts_Opt_skip [OF this] show ?thesis by (simp add: f)
next
  assume "\<exists>fp. fr = CHR ''.'' # fp \<and> fp \<noteq> [] \<and> list_all is_digit fp"
  then obtain fp where f: "fr = CHR ''.'' # fp" and fp: "fp \<noteq> []" "list_all is_digit fp"
    by blast
  have dot: "starts (Chr (\<lambda>c. c = CHR ''.'')) (CHR ''.'' # fp @ rest) ([CHR ''.''], fp @ rest, None)"
    by (rule starts_Chr) simp
  have "starts (Seq (Chr (\<lambda>c. c = CHR ''.'')) (Many1 is_digit)) (CHR ''.'' # fp @ rest)
          ([CHR ''.''] @ fp, rest, (case None of None \<Rightarrow> None | Some w \<Rightarrow> Some w))"
    by (rule starts_Seq [OF dot starts_digits [OF fp(2) fp(1) assms(2)]])
  then have "starts (Seq (Chr (\<lambda>c. c = CHR ''.'')) (Many1 is_digit)) (fr @ rest) (fr, rest, None)"
    by (simp add: f)
  then show ?thesis by (rule starts_Opt_take)
qed

lemma starts_numeral:
  assumes "decimal_numeral num"
      and "rest = [] \<or> \<not> is_digit (hd rest)"
      and "rest = [] \<or> hd rest \<noteq> CHR ''.''"
  shows "starts (Group (Seq (Many1 is_digit) (Opt (Seq (Chr (\<lambda>c. c = CHR ''.'')) (Many1 is_digit)))))
           (num @ rest) (num, rest, Some num)"
proof -
  from assms(1) obtain ip fr where num_eq: "num = ip @ fr" and ip: "ip \<noteq> []" and
    ipd: "list_all is_digit ip" and
    fr: "fr = [] \<or> (\<exists>fp. fr = CHR ''.'' # fp \<and> fp \<noteq> [] \<and> list_all is_digit fp)"
    by (rule decimal_numeral_parts)
  have sF: "starts (Opt (Seq (Chr (\<lambda>c. c = CHR ''.'')) (Many1 is_digit))) (fr @ rest) (fr, rest, None)"
    by (rule starts_fraction [OF fr assms(2,3)])
  have hd: "fr @ rest = [] \<or> \<not> is_digit (hd (fr @ rest))"
  proof (cases fr)
    case Nil
    then show ?thesis using assms(2) by simp
  next
    case (Cons c cs)
    then have "c = CHR ''.''" using fr by auto
    then show ?thesis using Cons letter_m_plain(5) by simp
  qed
  have "starts (Seq (Many1 is_digit) (Opt (Seq (Chr (\<lambda>c. c = CHR ''.'')) (Many1 is_digit))))
          (ip @ fr @ rest) (ip @ fr, rest, (case None of None \<Rightarrow> None | Some w \<Rightarrow> Some w))"
    by (rule starts_Seq [OF starts_digits [OF ipd ip hd] sF])
  then have "starts (Seq (Many1 is_digit) (Opt (Seq (Chr (\<lambda>c. c = CHR ''.'')) (Many1 is_digit))))
          (num @ rest) (num, rest, None)"
    by (simp add: num_eq)
  then show ?thesis by (rule starts_Group)
qed

lemma numeral_hd:
  assumes "decimal_numeral num"
  shows "num \<noteq> []" "is_digit (hd num)"
proof -
  from assms obtain ip fr where num_eq: "num = ip @ fr" and ip: "ip \<noteq> []" and
    ipd: "list_all is_digit ip"
    by (rule decimal_numeral_parts)
  show "num \<noteq> []" using ip num_eq by simp
  show "is_digit (hd num)" using ip ipd num_eq by (cases ip) simp_all
qed

lemma starts_separator:
  assumes "sep = [] \<or> sep = ''='' \<or> sep = ''<''"
      and "rest \<noteq> []" "hd rest \<noteq> CHR ''=''" "hd rest \<noteq> CHR ''<''"
  shows "starts (Opt (Chr (\<lambda>c. c = CHR ''='' \<or> c = CHR ''<''))) (sep @ rest) (sep, rest, None)"
  using assms(1)
proof (elim disjE)
  assume s: "sep = []"
  obtain c cs where r: "rest = c # cs" using assms(2) by (cases rest) auto
  then have "rmatch (Chr (\<lambda>c. c = CHR ''='' \<or> c = CHR ''<'')) rest = []"
    using assms(3,4) by simp
  from starts_Opt_skip [OF this] show ?thesis by (simp add: s)
next
  assume s: "sep = ''=''"
  have "starts (Chr (\<lambda>c. c = CHR ''='' \<or> c = CHR ''<'')) (CHR ''='' # rest) ([CHR ''=''], rest, None)"
    by (rule starts_Chr) simp
  then have "starts (Opt (Chr (\<lambda>c. c = CHR ''='' \<or> c = CHR ''<''))) (CHR ''='' # rest) ([CHR ''=''], rest, None)"
    by (rule starts_Opt_take)
  then show ?thesis by (simp add: s)
next
  assume s: "sep = ''<''"
  have "starts (Chr (\<lambda>c. c = CHR ''='' \<or> c = CHR ''<'')) (CHR ''<'' # rest) ([CHR ''<''], rest, None)"
    by (rule starts_Chr) simp
  then have "starts (Opt (Chr (\<lambda>c. c = CHR ''='' \<or> c = CHR ''<''))) (CHR ''<'' # rest) ([CHR ''<''], rest, None)"
    by (rule starts_Opt_take)
  then show ?thesis by (simp add: s)
qed

lemma latency_match:
  assumes tm: "spelled ''time'' ''TIME'' tm"
      and sep: "sep = [] \<or> sep = ''='' \<or> sep = ''<''"
      and ws1: "list_all is_space ws1"
      and num: "decimal_numeral num"
      and ws2: "list_all is_space ws2"
      and ms: "spelled ''ms'' ''MS'' ms"
  shows "starts LATENCY_RE (tm @ sep @ ws1 @ num @ ws2 @ ms @ post)
           (tm @ sep @ ws1 @ num @ ws2 @ ms, post, Some num)"
proof -
  from tm obtain c1 c2 c3 c4 where tm_eq: "tm = [c1, c2, c3, c4]" and
    c1: "c1 = CHR ''t'' \<or> c1 = CHR ''T''" and c2: "c2 = CHR ''i'' \<or> c2 = CHR ''I''" and
    c3: "c3 = CHR ''m'' \<or> c3 = CHR ''M''" and c4: "c4 = CHR ''e'' \<or> c4 = CHR ''E''"
    by (rule spelled_time)
  from ms obtain d1 d2 where ms_eq: "ms = [d1, d2]" and
    d1: "d1 = CHR ''m'' \<or> d1 = CHR ''M''" and d2: "d2 = CHR ''s'' \<or> d2 = CHR ''S''"
    by (rule spelled_ms)
  let ?G = "Group (Seq (Many1 is_digit) (Opt (Seq (Chr (\<lambda>c. c = CHR ''.'')) (Many1 is_digit))))"
  let ?R9 = "Seq (letter CHR ''m'' CHR ''M'') (letter CHR ''s'' CHR ''S'')"
  let ?R8 = "Seq (Many is_space) ?R9"
  let ?R7 = "Seq ?G ?R8"
  let ?R6 = "Seq (Many is_space) ?R7"
  let ?R5 = "Seq (Opt (Chr (\<lambda>c. c = CHR ''='' \<or> c = CHR ''<''))) ?R6"
  let ?t9 = "d1 # d2 # post"
  let ?t8 = "ws2 @ ?t9"
  let ?t7 = "num @ ?t8"
  let ?t6 = "ws1 @ ?t7"
  have d1_plain: "\<not> is_space d1" "\<not> is_digit d1" "d1 \<noteq> CHR ''.''"
    using d1 letter_m_plain by auto
  have "starts ?R9 (d1 # d2 # post) ([d1] @ [d2], post, (case None of None \<Rightarrow> None | Some w \<Rightarrow> Some w))"
    by (rule starts_Seq [OF starts_letter [OF d1] starts_letter [OF d2]])
  then have s9: "starts ?R9 ?t9 (ms, post, None)" by (simp add: ms_eq)
  have "?t9 = [] \<or> \<not> is_space (hd ?t9)" using d1_plain by simp
  from starts_spaces [OF ws2 this] have "starts (Many is_space) ?t8 (ws2, ?t9, None)" .
  from starts_Seq [OF this s9] have s8: "starts ?R8 ?t8 (ws2 @ ms, post, None)" by simp
  have t8_digit: "?t8 = [] \<or> \<not> is_digit (hd ?t8)" and t8_dot: "?t8 = [] \<or> hd ?t8 \<noteq> CHR ''.''"
  proof -
    show "?t8 = [] \<or> \<not> is_digit (hd ?t8)"
    proof (cases ws2)
      case Nil
      then show ?thesis using d1_plain by simp
    next
      case (Cons w ws)
      then have "is_space w" using ws2 by simp
      then have "\<not> is_digit w" using digit_not_space by blast
      then show ?thesis using Cons by simp
    qed
    show "?t8 = [] \<or> hd ?t8 \<noteq> CHR ''.''"
    proof (cases ws2)
      case Nil
      then show ?thesis using d1_plain by simp
    next
      case (Cons w ws)
      then have "is_space w" using ws2 by simp
      then have "w \<noteq> CHR ''.''" using space_not_mark by blast
      then show ?thesis using Cons by simp
    qed
  qed
  from starts_Seq [OF starts_numeral [OF num t8_digit t8_dot] s8]
  have s7: "starts ?R7 ?t7 (num @ ws2 @ ms, post, Some num)" by simp
  have num_ne: "num \<noteq> []" and num_hd: "is_digit (hd num)"
    using numeral_hd [OF num] by blast+
  have t7_hd: "hd ?t7 = hd num" using num_ne by simp
  have "?t7 = [] \<or> \<not> is_space (hd ?t7)"
    using num_hd digit_not_space t7_hd by simp
  from starts_spaces [OF ws1 this] have "starts (Many is_space) ?t6 (ws1, ?t7, None)" .
  from starts_Seq [OF this s7]
  have s6: "starts ?R6 ?t6 (ws1 @ num @ ws2 @ ms, post, Some num)" by simp
  have t6_ne: "?t6 \<noteq> []" using num_ne by simp
  have t6_marks: "hd ?t6 \<noteq> CHR ''=''" "hd ?t6 \<noteq> CHR ''<''"
  proof -
    have "hd ?t6 \<noteq> CHR ''='' \<and> hd ?t6 \<noteq> CHR ''<''"
    proof (cases ws1)
      case Nil
      then show ?thesis using digit_not_mark [OF num_hd] t7_hd by simp
    next
      case (Cons w ws)
      then have "is_space w" using ws1 by simp
      then show ?thesis using space_not_mark [of w] Cons by simp
    qed
    then show "hd ?t6 \<noteq> CHR ''=''" "hd ?t6 \<noteq> CHR ''<''" by blast+
  qed
  from starts_Seq [OF starts_separator [OF sep t6_ne t6_marks] s6]
  have s5: "starts ?R5 (sep @ ?t6) (sep @ ws1 @ num @ ws2 @ ms, post, Some num)" by simp
  let ?t5 = "sep @ ?t6" and ?m5 = "sep @ ws1 @ num @ ws2 @ ms"
  from starts_Seq [OF starts_letter [OF c4] s5]
  have s4: "starts (Seq (letter CHR ''e'' CHR ''E'') ?R5) (c4 # ?t5) (c4 # ?m5, post, Some num)"
    by simp
  from starts_Seq [OF starts_letter [OF c3] s4]
  have s3: "starts (Seq (letter CHR ''m'' CHR ''M'') (Seq (letter CHR ''e'' CHR ''E'') ?R5))
              (c3 # c4 # ?t5) (c3 # c4 # ?m5, post, Some num)"
    by simp
  from starts_Seq [OF starts_letter [OF c2] s3]
  have s2: "starts (Seq (letter CHR ''i'' CHR ''I'')
              (Seq (letter CHR ''m'' CHR ''M'') (Seq (letter CHR ''e'' CHR ''E'') ?R5)))
              (c2 # c3 # c4 # ?t5) (c2 # c3 # c4 # ?m5, post, Some num)"
    by simp
  from starts_Seq [OF starts_letter [OF c1] s2]
  have "starts LATENCY_RE (c1 # c2 # c3 # c4 # ?t5) (c1 # c2 # c3 # c4 # ?m5, post, Some num)"
    unfolding LATENCY_RE_def by simp
  then show ?thesis by (simp add: tm_eq ms_eq)
qed

lemma re_search_starts: "starts r s (u, s1, g) \<Longrightarrow> re_search r s = Some g"
  by (cases s) (auto simp: starts_def)

lemma re_search_skip:
  "\<forall>k<length pre. rmatch r (drop k (pre @ s)) = [] \<Longrightarrow> re_search r (pre @ s) = re_search r s"
proof (induction pre)
  case Nil
  then show ?case by simp
next
  case (Cons c pre)
  from Cons.prems have first: "rmatch r (c # pre @ s) = []"
    by (metis append_Cons drop0 length_greater_0_conv list.discI)
  have "\<forall>k<length pre. rmatch r (drop k (pre @ s)) = []"
  proof (intro allI impI)
    fix k assume "k < length pre"
    then have "Suc k < length (c # pre)" by simp
    with Cons.prems have "rmatch r (drop (Suc k) ((c # pre) @ s)) = []" by blast
    then show "rmatch r (drop k (pre @ s)) = []" by simp
  qed
  from Cons.IH [OF this] show ?case using first by simp
qed

lemma all_less_list_all: "(\<forall>k<n. P k) \<longleftrightarrow> list_all P [0..<n]"
  by (auto simp: list_all_iff)

text \<open>
  Claim C10. Let the output of a completed ping (standard output, a line feed, standard
  error) contain, as the leftmost place where the pattern matches, the word \<^verbatim>\<open>time\<close> in
  any mix of cases, then \<^verbatim>\<open>=\<close> or \<^verbatim>\<open><\<close> or nothing, white space, a decimal numeral, white
  space and \<^verbatim>\<open>ms\<close>. Then the latency that \<^verbatim>\<open>ping_once\<close> reports is \<^verbatim>\<open>float\<close> of the numeral,
  the same for each separator: \<^verbatim>\<open>time<1 ms\<close> is reported as \<^verbatim>\<open>float("1")\<close>, that is 1.0.
\<close>

theorem ping_result_latency:
  assumes out: "stdout @ [CHR 0x0A] @ stderr = pre @ tm @ sep @ ws1 @ num @ ws2 @ ms @ post"
      and leftmost: "\<forall>k<length pre. rmatch LATENCY_RE (drop k (pre @ tm @ sep @ ws1 @ num @ ws2 @ ms @ post)) = []"
      and tm: "spelled ''time'' ''TIME'' tm"
      and sep: "sep = [] \<or> sep = ''='' \<or> sep = ''<''"
      and ws1: "list_all is_space ws1"
      and num: "decimal_numeral num"
      and ws2: "list_all is_space ws2"
      and ms: "spelled ''ms'' ''MS'' ms"
  shows "ping_result pyfloat (Completed returncode stdout stderr) =
           Inr (returncode = 0, pyfloat num, returncode)"
proof -
  let ?match = "tm @ sep @ ws1 @ num @ ws2 @ ms @ post"
  have "re_search LATENCY_RE (pre @ ?match) = re_search LATENCY_RE ?match"
    by (rule re_search_skip [OF leftmost])
  also have "\<dots> = Some (Some num)"
    by (rule re_search_starts [OF latency_match [OF tm sep ws1 num ws2 ms]])
  finally have "re_search LATENCY_RE (stdout @ [CHR 0x0A] @ stderr) = Some (Some num)"
    by (simp only: out)
  then show ?thesis by (simp add: Let_def)
qed

text \<open>\<^verbatim>\<open>time<1 ms\<close> and \<^verbatim>\<open>time=1 ms\<close> are both reported as 1.0.\<close>

theorem ping_result_latency_witness:
  "ping_result decimal_value (Completed 0 ''bytes=32 time<1 ms TTL=64'' []) = Inr (True, Some 1, 0) \<and>
   ping_result decimal_value (Completed 0 ''bytes=32 time=1 ms TTL=64'' []) = Inr (True, Some 1, 0)"
proof -
  have tm: "spelled ''time'' ''TIME'' ''time''" and ms: "spelled ''ms'' ''MS'' ''ms''" by simp_all
  have ws1: "list_all is_space []" and ws2: "list_all is_space '' ''"
    by (simp_all add: is_space_def)
  have num: "decimal_numeral ''1''" by code_simp
  have lt: "''<'' = [] \<or> ''<'' = ''='' \<or> ''<'' = ''<''" and eq: "''='' = [] \<or> ''='' = ''='' \<or> ''='' = ''<''"
    by simp_all
  have out1: "''bytes=32 time<1 ms TTL=64'' @ [CHR 0x0A] @ [] =
      ''bytes=32 '' @ ''time'' @ ''<'' @ [] @ ''1'' @ '' '' @ ''ms'' @ '' TTL=64'' @ [CHR 0x0A]"
    by simp
  have out2: "''bytes=32 time=1 ms TTL=64'' @ [CHR 0x0A] @ [] =
      ''bytes=32 '' @ ''time'' @ ''='' @ [] @ ''1'' @ '' '' @ ''ms'' @ '' TTL=64'' @ [CHR 0x0A]"
    by simp
  have "list_all (\<lambda>k. rmatch LATENCY_RE
      (drop k (''bytes=32 '' @ ''time'' @ ''<'' @ [] @ ''1'' @ '' '' @ ''ms'' @ '' TTL=64'' @ [CHR 0x0A])) = [])
      [0..<length ''bytes=32 '']"
    by code_simp
  then have left1: "\<forall>k<length ''bytes=32 ''. rmatch LATENCY_RE
      (drop k (''bytes=32 '' @ ''time'' @ ''<'' @ [] @ ''1'' @ '' '' @ ''ms'' @ '' TTL=64'' @ [CHR 0x0A])) = []"
    by (simp only: all_less_list_all)
  have "list_all (\<lambda>k. rmatch LATENCY_RE
      (drop k (''bytes=32 '' @ ''time'' @ ''='' @ [] @ ''1'' @ '' '' @ ''ms'' @ '' TTL=64'' @ [CHR 0x0A])) = [])
      [0..<length ''bytes=32 '']"
    by code_simp
  then have left2: "\<forall>k<length ''bytes=32 ''. rmatch LATENCY_RE
      (drop k (''bytes=32 '' @ ''time'' @ ''='' @ [] @ ''1'' @ '' '' @ ''ms'' @ '' TTL=64'' @ [CHR 0x0A])) = []"
    by (simp only: all_less_list_all)
  have val: "decimal_value ''1'' = Some 1" by code_simp
  show ?thesis
    using ping_result_latency [OF out1 left1 tm lt ws1 num ws2 ms, of decimal_value 0]
      ping_result_latency [OF out2 left2 tm eq ws1 num ws2 ms, of decimal_value 0]
    by (simp only: val) simp
qed


end
